theory Spec2Isabelle
  imports Main
begin

section \<open>Data model of \<^verbatim>\<open>aiocoap/plumbingrequest.py\<close>\<close>

text \<open>
  A response message; only its code matters here. The class \<^verbatim>\<open>Message\<close> and the
  constant \<^verbatim>\<open>INTERNAL_SERVER_ERROR\<close> live in other modules, so the binder below
  takes the internal-server-error code as a parameter.
\<close>

datatype message = Message (code: nat)

text \<open>
  Python exceptions. \<^verbatim>\<open>TypeError\<close> and \<^verbatim>\<open>AttributeError\<close> are what the interpreter
  raises when the observer field holds a sentinel (\<^verbatim>\<open>None\<close> is not iterable,
  \<^verbatim>\<open>None\<close> and \<^verbatim>\<open>False\<close> have no \<^verbatim>\<open>append\<close>). \<^verbatim>\<open>RecursionError\<close> is raised when
  callback invocations nest deeper than the interpreter allows.
  \<^verbatim>\<open>CancelledError\<close> (as of Python 3.8) and \<open>OtherBaseException\<close> are not
  instances of \<^verbatim>\<open>Exception\<close>; everything else here is.
\<close>

datatype exn =
    AttributeError
  | TypeError
  | ValueError
  | NotImplementedError
  | RecursionError
  | CancelledError
  | OtherException nat
  | OtherBaseException nat

fun is_Exception :: "exn \<Rightarrow> bool" where
  "is_Exception CancelledError = False"
| "is_Exception (OtherBaseException n) = False"
| "is_Exception x = True"

text \<open>\<^verbatim>\<open>Event = namedtuple("Event", ("message", "exception", "is_last"))\<close>\<close>

datatype event = Event (message: "message option") (exception: "exn option") (is_last: bool)

text \<open>
  Callables are compared by identity only (\<^verbatim>\<open>callback is not cb\<close>), so each carries
  a number naming the object. A nullary callable is what \<^verbatim>\<open>on_interest_end\<close> takes;
  \<open>TaskCancel\<close> names the bound method \<^verbatim>\<open>cancel\<close> of the task with that number.
  An event callback is either one supplied by a caller of \<^verbatim>\<open>on_event\<close>, or the
  lambda that \<^verbatim>\<open>on_interest_end\<close> builds around a nullary callable.
  A nullary callable is taken to return without raising and without calling back into
  the plumbing request, as \<^verbatim>\<open>Task.cancel\<close> does; its call is recorded and nothing more.
\<close>

datatype nullary = Callable nat | TaskCancel nat

datatype callback = Observer nat | InterestEndLambda nullary

text \<open>
  The field \<^verbatim>\<open>_event_callbacks\<close>: a list of \<^verbatim>\<open>(callback, is_interest)\<close> pairs, or
  \<^verbatim>\<open>None\<close> during event processing, or \<^verbatim>\<open>False\<close> once the request has ended.
\<close>

datatype callbacks = CbList "(callback \<times> bool) list" | CbNone | CbFalse

text \<open>
  What the module does to the outside world is recorded in order of occurrence:
  a call of an event callback with an event, a call of a nullary callable, a
  record written to \<^verbatim>\<open>log\<close>, and the creation of a task (named by a number, as
  callables are) with its optional name.
\<close>

datatype level = INFO | WARNING | ERROR

datatype logline =
    ResponseAddedAfterEnded event
  | OnInterestEndAddedAfterEnded nullary
  | RenderableErrorRaised
  | RenderingFailed exn
  | ExceptionWhileRendering exn

datatype effect =
    Called callback event
  | Fired nullary
  | Logged level logline
  | TaskCreated nat "string option"

record plumbing_request =
  request :: message
  event_callbacks :: callbacks
  trace :: "effect list"

text \<open>
  The body of a caller-supplied event callback: it returns a truth value, raises, or
  first calls a method of the very plumbing request that is invoking it, either
  unguarded (\<open>Do\<close>: an exception of the call leaves the callback) or inside
  \<^verbatim>\<open>try: ... except: pass\<close> (\<open>Try\<close>). What a callback does may depend on
  everything that happened before, on which callback it is and on the event.
\<close>

datatype call =
    CallOnEvent nat bool
  | CallUnregister nat
  | CallOnInterestEnd nullary
  | CallAddResponse message bool
  | CallAddException exn

datatype body = Return bool | Raise exn | Do call body | Try call body

type_synonym behaviour = "effect list \<Rightarrow> nat \<Rightarrow> event \<Rightarrow> body"

type_synonym 'a result = "(exn + 'a) \<times> plumbing_request"

type_synonym invoker = "plumbing_request \<Rightarrow> callback \<Rightarrow> event \<Rightarrow> bool result"

section \<open>The class \<^verbatim>\<open>PlumbingRequest\<close>\<close>

text \<open>\<^verbatim>\<open>__init__\<close>\<close>

definition init :: "message \<Rightarrow> plumbing_request" where
  "init req = \<lparr>request = req, event_callbacks = CbList [], trace = []\<rparr>"

definition emit :: "effect \<Rightarrow> plumbing_request \<Rightarrow> plumbing_request" where
  "emit x st = st\<lparr>trace := trace st @ [x]\<rparr>"

text \<open>\<^verbatim>\<open>_any_interest\<close>: iterating over \<^verbatim>\<open>None\<close> or \<^verbatim>\<open>False\<close> raises.\<close>

definition priv_any_interest :: "plumbing_request \<Rightarrow> exn + bool" where
  "priv_any_interest st =
     (case event_callbacks st of
        CbList xs \<Rightarrow> Inr (list_ex snd xs)
      | CbNone \<Rightarrow> Inl TypeError
      | CbFalse \<Rightarrow> Inl TypeError)"

text \<open>\<^verbatim>\<open>poke\<close>\<close>

definition poke :: "plumbing_request \<Rightarrow> unit result" where
  "poke st = (Inl NotImplementedError, st)"

text \<open>
  \<^verbatim>\<open>on_event\<close>: \<^verbatim>\<open>append\<close> exists on a list only. The handle returned is
  \<^verbatim>\<open>functools.partial(self._unregister_on_event, callback)\<close>.
\<close>

datatype handle = UnregisterOnEvent callback

definition on_event :: "plumbing_request \<Rightarrow> callback \<Rightarrow> bool \<Rightarrow> handle result" where
  "on_event st callback is_interest =
     (case event_callbacks st of
        CbList xs \<Rightarrow>
          (Inr (UnregisterOnEvent callback),
           st\<lparr>event_callbacks := CbList (xs @ [(callback, is_interest)])\<rparr>)
      | CbNone \<Rightarrow> (Inl AttributeError, st)
      | CbFalse \<Rightarrow> (Inl AttributeError, st))"

text \<open>
  \<^verbatim>\<open>_end\<close>: the field becomes \<^verbatim>\<open>False\<close> first, then every callback of the old
  list is called with the tombstone; the values they return are dropped.
\<close>

definition tombstone :: event where
  "tombstone = Event None None True"

fun call_each :: "invoker \<Rightarrow> event \<Rightarrow> (callback \<times> bool) list \<Rightarrow> plumbing_request \<Rightarrow> unit result" where
  "call_each ivk e [] st = (Inr (), st)"
| "call_each ivk e ((cb, i) # cbs) st =
     (case ivk st cb e of
        (Inl x, st') \<Rightarrow> (Inl x, st')
      | (Inr r, st') \<Rightarrow> call_each ivk e cbs st')"

definition priv_end :: "invoker \<Rightarrow> plumbing_request \<Rightarrow> unit result" where
  "priv_end ivk st =
     (let cbs = event_callbacks st;
          st1 = st\<lparr>event_callbacks := CbFalse\<rparr>
      in case cbs of
           CbList xs \<Rightarrow> call_each ivk tombstone xs st1
         | CbNone \<Rightarrow> (Inl TypeError, st1)
         | CbFalse \<Rightarrow> (Inl TypeError, st1))"

text \<open>\<^verbatim>\<open>_unregister_on_event\<close>\<close>

definition priv_unregister_on_event :: "invoker \<Rightarrow> plumbing_request \<Rightarrow> callback \<Rightarrow> unit result" where
  "priv_unregister_on_event ivk st callback =
     (if event_callbacks st = CbFalse then (Inr (), st)
      else case event_callbacks st of
             CbList xs \<Rightarrow>
               (let st1 = st\<lparr>event_callbacks := CbList (filter (\<lambda>(cb, i). callback \<noteq> cb) xs)\<rparr>
                in case priv_any_interest st1 of
                     Inl x \<Rightarrow> (Inl x, st1)
                   | Inr a \<Rightarrow> if \<not> a then priv_end ivk st1 else (Inr (), st1))
           | CbNone \<Rightarrow> (Inl TypeError, st)
           | CbFalse \<Rightarrow> (Inl TypeError, st))"

definition call_handle :: "invoker \<Rightarrow> plumbing_request \<Rightarrow> handle \<Rightarrow> unit result" where
  "call_handle ivk st h = (case h of UnregisterOnEvent callback \<Rightarrow> priv_unregister_on_event ivk st callback)"

text \<open>\<^verbatim>\<open>on_interest_end\<close>\<close>

definition on_interest_end :: "plumbing_request \<Rightarrow> nullary \<Rightarrow> unit result" where
  "on_interest_end st callback =
     (if event_callbacks st = CbFalse then
        (Inr (), emit (Fired callback) (emit (Logged WARNING (OnInterestEndAddedAfterEnded callback)) st))
      else case priv_any_interest st of
             Inl x \<Rightarrow> (Inl x, st)
           | Inr a \<Rightarrow>
               if a then
                 (case event_callbacks st of
                    CbList xs \<Rightarrow>
                      (Inr (), st\<lparr>event_callbacks := CbList (xs @ [(InterestEndLambda callback, False)])\<rparr>)
                  | CbNone \<Rightarrow> (Inl AttributeError, st)
                  | CbFalse \<Rightarrow> (Inl AttributeError, st))
               else (Inr (), emit (Fired callback) st))"

text \<open>
  \<^verbatim>\<open>_add_event\<close>: \<open>surviving\<close> is the list comprehension
  \<^verbatim>\<open>[(cb, is_interest) for (cb, is_interest) in cbs if cb(event)]\<close>; an exception of
  a callback leaves the comprehension and the method at once.
\<close>

fun surviving :: "invoker \<Rightarrow> event \<Rightarrow> (callback \<times> bool) list \<Rightarrow> plumbing_request \<Rightarrow> (callback \<times> bool) list result" where
  "surviving ivk e [] st = (Inr [], st)"
| "surviving ivk e ((cb, i) # cbs) st =
     (case ivk st cb e of
        (Inl x, st') \<Rightarrow> (Inl x, st')
      | (Inr keep, st') \<Rightarrow>
          (case surviving ivk e cbs st' of
             (Inl x, st'') \<Rightarrow> (Inl x, st'')
           | (Inr s, st'') \<Rightarrow> (Inr (if keep then (cb, i) # s else s), st'')))"

definition priv_add_event :: "invoker \<Rightarrow> plumbing_request \<Rightarrow> event \<Rightarrow> unit result" where
  "priv_add_event ivk st e =
     (if event_callbacks st = CbFalse then
        (Inr (), emit (Logged WARNING (ResponseAddedAfterEnded e)) st)
      else
        (let cbs = event_callbacks st;
             st1 = st\<lparr>event_callbacks := CbNone\<rparr>
         in case cbs of
              CbList xs \<Rightarrow>
                (case surviving ivk e xs st1 of
                   (Inl x, st2) \<Rightarrow> (Inl x, st2)
                 | (Inr s, st2) \<Rightarrow>
                     (let st3 = st2\<lparr>event_callbacks := CbList s\<rparr>
                      in case priv_any_interest st3 of
                           Inl x \<Rightarrow> (Inl x, st3)
                         | Inr a \<Rightarrow> if \<not> a then priv_end ivk st3 else (Inr (), st3)))
            | CbNone \<Rightarrow> (Inl TypeError, st1)
            | CbFalse \<Rightarrow> (Inl TypeError, st1)))"

definition add_response :: "invoker \<Rightarrow> plumbing_request \<Rightarrow> message \<Rightarrow> bool \<Rightarrow> unit result" where
  "add_response ivk st response final = priv_add_event ivk st (Event (Some response) None final)"

definition add_exception :: "invoker \<Rightarrow> plumbing_request \<Rightarrow> exn \<Rightarrow> unit result" where
  "add_exception ivk st x = priv_add_event ivk st (Event None (Some x) True)"

section \<open>Calling callbacks\<close>

text \<open>One method call on the plumbing request, its return value dropped.\<close>

definition perform :: "invoker \<Rightarrow> plumbing_request \<Rightarrow> call \<Rightarrow> unit result" where
  "perform ivk st c =
     (case c of
        CallOnEvent n i \<Rightarrow>
          (case on_event st (Observer n) i of (Inl x, st') \<Rightarrow> (Inl x, st') | (Inr h, st') \<Rightarrow> (Inr (), st'))
      | CallUnregister n \<Rightarrow> call_handle ivk st (UnregisterOnEvent (Observer n))
      | CallOnInterestEnd f \<Rightarrow> on_interest_end st f
      | CallAddResponse r l \<Rightarrow> add_response ivk st r l
      | CallAddException x \<Rightarrow> add_exception ivk st x)"

fun run_body :: "invoker \<Rightarrow> plumbing_request \<Rightarrow> body \<Rightarrow> bool result" where
  "run_body ivk st (Return b) = (Inr b, st)"
| "run_body ivk st (Raise x) = (Inl x, st)"
| "run_body ivk st (Do c k) =
     (case perform ivk st c of
        (Inl x, st') \<Rightarrow> (Inl x, st')
      | (Inr u, st') \<Rightarrow> run_body ivk st' k)"
| "run_body ivk st (Try c k) = run_body ivk (snd (perform ivk st c)) k"

text \<open>
  Calling an event callback: the call is recorded, then the body runs, and the method
  calls it makes are the methods above. \<open>d\<close> bounds how deep calls of callbacks
  may nest (a callback called by a method called by a callback, and so on); beyond it
  the interpreter raises \<^verbatim>\<open>RecursionError\<close>. One level is all the class ever uses
  (\<open>run_depth\<close> below). The lambda of \<^verbatim>\<open>on_interest_end\<close> is
  \<^verbatim>\<open>lambda e: ((callback(), False) if e.is_last else (None, True))[1]\<close>.
\<close>

primrec invoke :: "nat \<Rightarrow> behaviour \<Rightarrow> invoker" where
  "invoke 0 B = (\<lambda>st cb e. (Inl RecursionError, st))"
| "invoke (Suc d) B = (\<lambda>st cb e.
     (let st1 = emit (Called cb e) st
      in case cb of
           Observer n \<Rightarrow> run_body (invoke d B) st1 (B (trace st) n e)
         | InterestEndLambda f \<Rightarrow>
             if is_last e then (Inr False, emit (Fired f) st1) else (Inr True, st1)))"

text \<open>A sequence of method calls made from outside, one after the other.\<close>

fun run :: "invoker \<Rightarrow> plumbing_request \<Rightarrow> call list \<Rightarrow> plumbing_request" where
  "run ivk st [] = st"
| "run ivk st (c # cs) = run ivk (snd (perform ivk st c)) cs"

section \<open>\<^verbatim>\<open>run_driving_plumbing_request\<close>\<close>

text \<open>
  How \<^verbatim>\<open>await coroutine\<close> ends inside \<^verbatim>\<open>wrapped\<close>: it returns, or it raises a
  \<^verbatim>\<open>RenderableError\<close> (of which only the behaviour of \<^verbatim>\<open>to_message\<close> matters), or it
  raises something that is not a \<^verbatim>\<open>RenderableError\<close>.
\<close>

datatype to_message = ToMessageReturns "message option" | ToMessageRaises exn

datatype outcome = Returned | RaisedRenderableError to_message | Raised exn

text \<open>
  \<^verbatim>\<open>wrapped\<close>, from the point where the awaited coroutine has ended. The plumbing
  request is taken as the coroutine left it.
\<close>

definition wrapped :: "nat \<Rightarrow> invoker \<Rightarrow> plumbing_request \<Rightarrow> outcome \<Rightarrow> unit result" where
  "wrapped INTERNAL_SERVER_ERROR ivk plumbing_request outcome =
     (case outcome of
        Returned \<Rightarrow> (Inr (), plumbing_request)
      | RaisedRenderableError tm \<Rightarrow>
          (let st1 = emit (Logged INFO RenderableErrorRaised) plumbing_request
           in case (case tm of
                      ToMessageReturns None \<Rightarrow> Inl ValueError
                    | ToMessageReturns (Some m) \<Rightarrow> Inr m
                    | ToMessageRaises x \<Rightarrow> Inl x) of
                Inr msg \<Rightarrow> add_response ivk st1 msg True
              | Inl e2 \<Rightarrow>
                  if is_Exception e2 then
                    add_response ivk (emit (Logged ERROR (RenderingFailed e2)) st1)
                      (Message INTERNAL_SERVER_ERROR) True
                  else (Inl e2, st1))
      | Raised x \<Rightarrow>
          if x = CancelledError then (Inr (), plumbing_request)
          else if is_Exception x then
            (case add_response ivk plumbing_request (Message INTERNAL_SERVER_ERROR) True of
               (Inl y, st') \<Rightarrow> (Inl y, st')
             | (Inr u, st') \<Rightarrow> (Inr (), emit (Logged ERROR (ExceptionWhileRendering x)) st'))
          else (Inl x, plumbing_request))"

text \<open>
  \<^verbatim>\<open>run_driving_plumbing_request\<close> itself: it creates the task around \<^verbatim>\<open>wrapped()\<close>
  and returns. \<open>task\<close> names the task object that \<^verbatim>\<open>asyncio.create_task\<close> makes.
\<close>

definition run_driving_plumbing_request :: "plumbing_request \<Rightarrow> nat \<Rightarrow> string option \<Rightarrow> plumbing_request" where
  "run_driving_plumbing_request plumbing_request task name = emit (TaskCreated task name) plumbing_request"

text \<open>A task has received a cancellation request once its \<^verbatim>\<open>cancel\<close> has been called.\<close>

definition cancel_requested :: "nat \<Rightarrow> plumbing_request \<Rightarrow> bool" where
  "cancel_requested task st = (Fired (TaskCancel task) \<in> set (trace st))"

section \<open>Reading the record of effects\<close>

text \<open>The calls of event callbacks, and the calls of nullary callables, in order.\<close>

fun calls :: "effect list \<Rightarrow> (callback \<times> event) list" where
  "calls [] = []"
| "calls (Called cb e # t) = (cb, e) # calls t"
| "calls (Fired f # t) = calls t"
| "calls (Logged l m # t) = calls t"
| "calls (TaskCreated n s # t) = calls t"

fun fired :: "effect list \<Rightarrow> nullary list" where
  "fired [] = []"
| "fired (Called cb e # t) = fired t"
| "fired (Fired f # t) = f # fired t"
| "fired (Logged l m # t) = fired t"
| "fired (TaskCreated n s # t) = fired t"

text \<open>The observer field holds one of the two sentinels.\<close>

definition sealed :: "plumbing_request \<Rightarrow> bool" where
  "sealed st = (event_callbacks st = CbNone \<or> event_callbacks st = CbFalse)"

text \<open>
  The nullary callables that wait in a list of observers, wrapped in the lambda of
  \<^verbatim>\<open>on_interest_end\<close>.
\<close>

fun pending :: "(callback \<times> bool) list \<Rightarrow> nullary list" where
  "pending [] = []"
| "pending ((Observer n, i) # xs) = pending xs"
| "pending ((InterestEndLambda f, i) # xs) = f # pending xs"

text \<open>The callbacks passed to \<^verbatim>\<open>on_event\<close> in a sequence of method calls.\<close>

fun registered :: "call list \<Rightarrow> callback list" where
  "registered [] = []"
| "registered (CallOnEvent n i # cs) = Observer n # registered cs"
| "registered (CallUnregister n # cs) = registered cs"
| "registered (CallOnInterestEnd f # cs) = registered cs"
| "registered (CallAddResponse r l # cs) = registered cs"
| "registered (CallAddException x # cs) = registered cs"

text \<open>
  Callbacks that keep to the contract of \<^verbatim>\<open>on_event\<close>: each call returns a truth
  value and lets no exception escape, so whatever method of the plumbing request it
  calls, it calls guarded; and it does not call \<^verbatim>\<open>on_interest_end\<close> itself.
\<close>

fun keeps_contract :: "body \<Rightarrow> bool" where
  "keeps_contract (Return b) = True"
| "keeps_contract (Raise x) = False"
| "keeps_contract (Do c k) = False"
| "keeps_contract (Try (CallOnInterestEnd f) k) = False"
| "keeps_contract (Try c k) = keeps_contract k"

definition plain :: "behaviour \<Rightarrow> bool" where
  "plain B = (\<forall>h n e. keeps_contract (B h n e))"

text \<open>
  The bookkeeping of one nullary callable \<open>f\<close> after \<open>n\<close> calls of
  \<^verbatim>\<open>on_interest_end(f)\<close>: every such call has either fired \<open>f\<close> or left one lambda
  waiting in the list, and lambdas wait only while some observer counts as interest.
\<close>

definition accounted :: "nullary \<Rightarrow> plumbing_request \<Rightarrow> nat \<Rightarrow> bool" where
  "accounted f st n =
     (case event_callbacks st of
        CbList xs \<Rightarrow>
          count_list (fired (trace st)) f + count_list (pending xs) f = n
          \<and> (list_ex snd xs \<or> pending xs = [])
      | CbNone \<Rightarrow> False
      | CbFalse \<Rightarrow> count_list (fired (trace st)) f = n)"

text \<open>
  For comparison with \<open>wrapped\<close>, in the words of the specification rather than of the
  source: the one event the binder is said to push for each way the coroutine can
  end (a renderable error: a final response with the rendered message, or with a
  generic internal-server-error message if rendering raises or returns nothing; any
  other failure: a final internal-server-error response), and none on normal
  completion or cancellation.
\<close>

fun spec_binder_push :: "nat \<Rightarrow> outcome \<Rightarrow> event option" where
  "spec_binder_push ise Returned = None"
| "spec_binder_push ise (RaisedRenderableError (ToMessageReturns (Some m))) =
     Some (Event (Some m) None True)"
| "spec_binder_push ise (RaisedRenderableError (ToMessageReturns None)) =
     Some (Event (Some (Message ise)) None True)"
| "spec_binder_push ise (RaisedRenderableError (ToMessageRaises x)) =
     Some (Event (Some (Message ise)) None True)"
| "spec_binder_push ise (Raised x) =
     (if x = CancelledError then None else Some (Event (Some (Message ise)) None True))"

text \<open>
  The ways of ending in which every exception involved is \<^verbatim>\<open>CancelledError\<close> or an
  instance of \<^verbatim>\<open>Exception\<close> (no \<^verbatim>\<open>KeyboardInterrupt\<close> and the like, which no
  \<^verbatim>\<open>except Exception\<close> clause catches).
\<close>

fun ordinary :: "outcome \<Rightarrow> bool" where
  "ordinary Returned = True"
| "ordinary (RaisedRenderableError (ToMessageReturns r)) = True"
| "ordinary (RaisedRenderableError (ToMessageRaises x)) = is_Exception x"
| "ordinary (Raised x) = (x = CancelledError \<or> is_Exception x)"

section \<open>Basic facts\<close>

lemma calls_append [simp]: "calls (s @ t) = calls s @ calls t"
  by (induction s rule: calls.induct) simp_all

lemma fired_append [simp]: "fired (s @ t) = fired s @ fired t"
  by (induction s rule: fired.induct) simp_all

lemma same_field [simp]: "event_callbacks st = v \<Longrightarrow> st\<lparr>event_callbacks := v\<rparr> = st"
  by auto

lemma emit_simps [simp]:
  "event_callbacks (emit x st) = event_callbacks st"
  "request (emit x st) = request st"
  "trace (emit x st) = trace st @ [x]"
  by (simp_all add: emit_def)

lemmas method_defs =
  perform_def on_event_def call_handle_def priv_unregister_on_event_def
  on_interest_end_def priv_any_interest_def add_response_def add_exception_def
  priv_add_event_def priv_end_def

subsection \<open>Every method on a plumbing request whose field is a sentinel\<close>

lemma perform_CbNone:
  assumes "event_callbacks st = CbNone"
  shows "perform ivk st c =
    (Inl (case c of CallOnEvent n i \<Rightarrow> AttributeError | _ \<Rightarrow> TypeError), st)"
  using assms by (cases c) (simp_all add: method_defs)

lemma perform_CbFalse:
  assumes "event_callbacks st = CbFalse"
  shows "perform ivk st c =
    (case c of
       CallOnEvent n i \<Rightarrow> (Inl AttributeError, st)
     | CallUnregister n \<Rightarrow> (Inr (), st)
     | CallOnInterestEnd f \<Rightarrow>
         (Inr (), emit (Fired f) (emit (Logged WARNING (OnInterestEndAddedAfterEnded f)) st))
     | CallAddResponse r l \<Rightarrow>
         (Inr (), emit (Logged WARNING (ResponseAddedAfterEnded (Event (Some r) None l))) st)
     | CallAddException x \<Rightarrow>
         (Inr (), emit (Logged WARNING (ResponseAddedAfterEnded (Event None (Some x) True))) st))"
  using assms by (cases c) (simp_all add: method_defs)

lemma perform_sealed:
  assumes "sealed st" and "perform ivk st c = (r, st')"
  shows "event_callbacks st' = event_callbacks st \<and> request st' = request st
     \<and> calls (trace st') = calls (trace st)"
  using assms unfolding sealed_def
  by (cases c) (auto simp: perform_CbNone perform_CbFalse)

lemma run_body_sealed:
  assumes "sealed st" and "run_body ivk st b = (r, st')"
  shows "event_callbacks st' = event_callbacks st \<and> request st' = request st
     \<and> calls (trace st') = calls (trace st)"
  using assms
proof (induction b arbitrary: st)
  case (Do c k)
  obtain r1 st1 where p: "perform ivk st c = (r1, st1)" by (cases "perform ivk st c")
  from perform_sealed [OF Do.prems(1) p] have s1: "sealed st1"
    and eq: "event_callbacks st1 = event_callbacks st" "request st1 = request st"
       "calls (trace st1) = calls (trace st)"
    using Do.prems(1) by (simp_all add: sealed_def)
  show ?case
  proof (cases r1)
    case (Inl x)
    with Do.prems(2) p eq show ?thesis by auto
  next
    case (Inr u)
    with Do.prems(2) p have "run_body ivk st1 k = (r, st')" by simp
    from Do.IH [OF s1 this] eq show ?thesis by simp
  qed
next
  case (Try c k)
  obtain r1 st1 where p: "perform ivk st c = (r1, st1)" by (cases "perform ivk st c")
  from perform_sealed [OF Try.prems(1) p] have s1: "sealed st1"
    and eq: "event_callbacks st1 = event_callbacks st" "request st1 = request st"
       "calls (trace st1) = calls (trace st)"
    using Try.prems(1) by (simp_all add: sealed_def)
  from Try.prems(2) p have "run_body ivk st1 k = (r, st')" by simp
  from Try.IH [OF s1 this] eq show ?case by simp
qed auto

lemma invoke_sealed:
  assumes "sealed st" and "invoke d B st cb e = (r, st')"
  shows "event_callbacks st' = event_callbacks st \<and> request st' = request st
     \<and> calls (trace st') = calls (trace st) @ (if d = 0 then [] else [(cb, e)])"
proof (cases d)
  case 0
  with assms show ?thesis by auto
next
  case (Suc d')
  show ?thesis
  proof (cases cb)
    case (Observer n)
    have s: "sealed (emit (Called cb e) st)" using assms(1) by (simp add: sealed_def)
    from assms(2) Suc Observer
    have "run_body (invoke d' B) (emit (Called cb e) st) (B (trace st) n e) = (r, st')"
      by simp
    from run_body_sealed [OF s this] Suc show ?thesis by simp
  next
    case (InterestEndLambda f)
    with assms Suc show ?thesis by (auto simp: Let_def split: if_splits)
  qed
qed

subsection \<open>One pass over the callbacks\<close>

lemma surviving_append:
  "surviving ivk e (pre @ rest) st =
     (case surviving ivk e pre st of
        (Inl x, st') \<Rightarrow> (Inl x, st')
      | (Inr s, st') \<Rightarrow>
          (case surviving ivk e rest st' of
             (Inl x, st'') \<Rightarrow> (Inl x, st'')
           | (Inr s', st'') \<Rightarrow> (Inr (s @ s'), st'')))"
  by (induction pre arbitrary: st) (auto split: prod.splits sum.splits)


lemma surviving_Inr_subset:
  "surviving ivk e xs st = (Inr s, st') \<Longrightarrow> set s \<subseteq> set xs"
proof (induction xs arbitrary: st s st')
  case Nil
  then show ?case by simp
next
  case (Cons p xs)
  obtain cb i where p: "p = (cb, i)" by (cases p)
  from Cons.prems p obtain keep st1 s1 st2
    where "ivk st cb e = (Inr keep, st1)" and r: "surviving ivk e xs st1 = (Inr s1, st2)"
      and s: "s = (if keep then (cb, i) # s1 else s1)"
    by (auto split: prod.splits sum.splits)
  from Cons.IH [OF r] s p show ?case by auto
qed

lemma surviving_sealed:
  assumes "sealed st" and "surviving (invoke d B) e xs st = (r, st')"
  shows "event_callbacks st' = event_callbacks st \<and> request st' = request st
     \<and> (\<exists>k\<le>length xs. calls (trace st') = calls (trace st) @ map (\<lambda>(cb, i). (cb, e)) (take k xs)
           \<and> (\<forall>s. r = Inr s \<longrightarrow> k = length xs))"
  using assms
proof (induction xs arbitrary: st r st')
  case Nil
  then show ?case by auto
next
  case (Cons p xs)
  obtain cb i where p: "p = (cb, i)" by (cases p)
  obtain r1 st1 where i1: "invoke d B st cb e = (r1, st1)" by (cases "invoke d B st cb e")
  from invoke_sealed [OF Cons.prems(1) i1]
  have f1: "event_callbacks st1 = event_callbacks st" "request st1 = request st"
    and c1: "calls (trace st1) = calls (trace st) @ (if d = 0 then [] else [(cb, e)])"
    by simp_all
  have s1: "sealed st1" using Cons.prems(1) f1 by (simp add: sealed_def)
  show ?case
  proof (cases r1)
    case (Inl x)
    with Cons.prems(2) p i1 have "r = Inl x" "st' = st1" by auto
    with f1 c1 p show ?thesis
      by (cases "d = 0") (auto intro: exI [of _ 0] exI [of _ "Suc 0"])
  next
    case (Inr keep)
    obtain r2 st2 where i2: "surviving (invoke d B) e xs st1 = (r2, st2)"
      by (cases "surviving (invoke d B) e xs st1")
    from Cons.IH [OF s1 i2] obtain k where k: "k \<le> length xs"
      "calls (trace st2) = calls (trace st1) @ map (\<lambda>(cb, i). (cb, e)) (take k xs)"
      "\<forall>s. r2 = Inr s \<longrightarrow> k = length xs"
      and f2: "event_callbacks st2 = event_callbacks st1" "request st2 = request st1"
      by auto
    from Cons.prems(2) p i1 i2 Inr have st': "st' = st2"
      and r: "r = (case r2 of Inl x \<Rightarrow> Inl x | Inr s \<Rightarrow> Inr (if keep then (cb, i) # s else s))"
      by (auto split: sum.splits)
    have d: "d \<noteq> 0" using i1 Inr by (cases d) auto
    have "calls (trace st') = calls (trace st) @ map (\<lambda>(cb, i). (cb, e)) (take (Suc k) (p # xs))"
      using k c1 d p st' by simp
    moreover have "\<forall>s. r = Inr s \<longrightarrow> Suc k = length (p # xs)"
      using r k(3) by (auto split: sum.splits)
    ultimately show ?thesis using k(1) f1 f2 st' by (intro conjI exI [of _ "Suc k"]) auto
  qed
qed

lemma call_each_sealed:
  assumes "sealed st" and "call_each (invoke d B) e xs st = (r, st')"
  shows "event_callbacks st' = event_callbacks st \<and> request st' = request st
     \<and> (\<exists>k\<le>length xs. calls (trace st') = calls (trace st) @ map (\<lambda>(cb, i). (cb, e)) (take k xs)
           \<and> (\<forall>u. r = Inr u \<longrightarrow> k = length xs))"
  using assms
proof (induction xs arbitrary: st r st')
  case Nil
  then show ?case by auto
next
  case (Cons p xs)
  obtain cb i where p: "p = (cb, i)" by (cases p)
  obtain r1 st1 where i1: "invoke d B st cb e = (r1, st1)" by (cases "invoke d B st cb e")
  from invoke_sealed [OF Cons.prems(1) i1]
  have f1: "event_callbacks st1 = event_callbacks st" "request st1 = request st"
    and c1: "calls (trace st1) = calls (trace st) @ (if d = 0 then [] else [(cb, e)])"
    by simp_all
  have s1: "sealed st1" using Cons.prems(1) f1 by (simp add: sealed_def)
  show ?case
  proof (cases r1)
    case (Inl x)
    with Cons.prems(2) p i1 have "r = Inl x" "st' = st1" by auto
    with f1 c1 p show ?thesis
      by (cases "d = 0") (auto intro: exI [of _ 0] exI [of _ "Suc 0"])
  next
    case (Inr keep)
    with Cons.prems(2) p i1 have i2: "call_each (invoke d B) e xs st1 = (r, st')" by simp
    from Cons.IH [OF s1 i2] obtain k where k: "k \<le> length xs"
      "calls (trace st') = calls (trace st1) @ map (\<lambda>(cb, i). (cb, e)) (take k xs)"
      "\<forall>u. r = Inr u \<longrightarrow> k = length xs"
      and f2: "event_callbacks st' = event_callbacks st1" "request st' = request st1"
      by auto
    have d: "d \<noteq> 0" using i1 Inr by (cases d) auto
    have "calls (trace st') = calls (trace st) @ map (\<lambda>(cb, i). (cb, e)) (take (Suc k) (p # xs))"
      using k c1 d p by simp
    moreover have "\<forall>u. r = Inr u \<longrightarrow> Suc k = length (p # xs)"
      using k(3) by auto
    ultimately show ?thesis using k(1) f1 f2 by (intro conjI exI [of _ "Suc k"]) auto
  qed
qed

subsection \<open>The depth of nesting does not matter\<close>

text \<open>
  Callbacks are called only while the observer field holds a sentinel, and then no
  method calls a callback in turn. So one level of nesting is all that is ever used.
\<close>

lemma perform_sealed_invoker:
  assumes "sealed st"
  shows "perform ivk st c = perform ivk' st c"
  using assms unfolding sealed_def by (auto simp: perform_CbNone perform_CbFalse)

lemma run_body_sealed_invoker:
  assumes "sealed st"
  shows "run_body ivk st b = run_body ivk' st b"
  using assms
proof (induction b arbitrary: st)
  case (Do c k)
  obtain r1 st1 where p: "perform ivk st c = (r1, st1)" by (cases "perform ivk st c")
  then have p': "perform ivk' st c = (r1, st1)"
    using perform_sealed_invoker [OF Do.prems, of ivk c ivk'] by simp
  from perform_sealed [OF Do.prems p] Do.prems have "sealed st1" by (simp add: sealed_def)
  from Do.IH [OF this] p p' show ?case by (cases r1) simp_all
next
  case (Try c k)
  obtain r1 st1 where p: "perform ivk st c = (r1, st1)" by (cases "perform ivk st c")
  then have p': "perform ivk' st c = (r1, st1)"
    using perform_sealed_invoker [OF Try.prems, of ivk c ivk'] by simp
  from perform_sealed [OF Try.prems p] Try.prems have "sealed st1" by (simp add: sealed_def)
  from Try.IH [OF this] p p' show ?case by simp
qed simp_all

lemma invoke_depth:
  assumes "sealed st"
  shows "invoke (Suc d) B st cb e = invoke (Suc 0) B st cb e"
proof (cases cb)
  case (Observer n)
  have "sealed (emit (Called cb e) st)" using assms by (simp add: sealed_def)
  from run_body_sealed_invoker [OF this, of "invoke d B" _ "invoke 0 B"] Observer
  show ?thesis by simp
next
  case (InterestEndLambda f)
  then show ?thesis by simp
qed

lemma surviving_depth:
  assumes "sealed st"
  shows "surviving (invoke (Suc d) B) e xs st = surviving (invoke (Suc 0) B) e xs st"
  using assms
proof (induction xs arbitrary: st)
  case Nil
  show ?case by simp
next
  case (Cons p xs)
  obtain cb i where p: "p = (cb, i)" by (cases p)
  obtain r1 st1 where i1: "invoke (Suc 0) B st cb e = (r1, st1)"
    by (cases "invoke (Suc 0) B st cb e")
  then have i1': "invoke (Suc d) B st cb e = (r1, st1)"
    using invoke_depth [OF Cons.prems, of d B cb e] by simp
  from invoke_sealed [OF Cons.prems i1] Cons.prems have "sealed st1" by (simp add: sealed_def)
  from Cons.IH [OF this] p i1 i1' show ?case by (cases r1) (simp_all del: invoke.simps)
qed

lemma call_each_depth:
  assumes "sealed st"
  shows "call_each (invoke (Suc d) B) e xs st = call_each (invoke (Suc 0) B) e xs st"
  using assms
proof (induction xs arbitrary: st)
  case Nil
  show ?case by simp
next
  case (Cons p xs)
  obtain cb i where p: "p = (cb, i)" by (cases p)
  obtain r1 st1 where i1: "invoke (Suc 0) B st cb e = (r1, st1)"
    by (cases "invoke (Suc 0) B st cb e")
  then have i1': "invoke (Suc d) B st cb e = (r1, st1)"
    using invoke_depth [OF Cons.prems, of d B cb e] by simp
  from invoke_sealed [OF Cons.prems i1] Cons.prems have "sealed st1" by (simp add: sealed_def)
  from Cons.IH [OF this] p i1 i1' show ?case by (cases r1) (simp_all del: invoke.simps)
qed

lemma priv_end_depth:
  "priv_end (invoke (Suc d) B) st = priv_end (invoke (Suc 0) B) st"
proof -
  have "sealed (st\<lparr>event_callbacks := CbFalse\<rparr>)" by (simp add: sealed_def)
  from call_each_depth [OF this, of d B] show ?thesis
    by (simp add: priv_end_def Let_def del: invoke.simps split: callbacks.splits)
qed

lemma priv_add_event_depth:
  "priv_add_event (invoke (Suc d) B) st e = priv_add_event (invoke (Suc 0) B) st e"
proof -
  have "sealed (st\<lparr>event_callbacks := CbNone\<rparr>)" by (simp add: sealed_def)
  from surviving_depth [OF this, of d B e] priv_end_depth [of d B] show ?thesis
    by (simp add: priv_add_event_def Let_def del: invoke.simps
          split: callbacks.splits prod.splits sum.splits)
qed

lemma perform_depth:
  "perform (invoke (Suc d) B) st c = perform (invoke (Suc 0) B) st c"
  using priv_end_depth [of d B] priv_add_event_depth [of d B]
  by (cases c)
     (simp_all add: perform_def call_handle_def priv_unregister_on_event_def
        add_response_def add_exception_def Let_def del: invoke.simps
        split: callbacks.splits sum.splits)

lemma run_depth:
  "run (invoke (Suc d) B) st cs = run (invoke (Suc 0) B) st cs"
  by (induction cs arbitrary: st) (simp_all add: perform_depth [of d B] del: invoke.simps)

subsection \<open>Sequences of method calls\<close>

lemma run_driving_plumbing_request_observers:
  "event_callbacks (run_driving_plumbing_request st task name) = event_callbacks st
   \<and> calls (trace (run_driving_plumbing_request st task name)) = calls (trace st)
   \<and> fired (trace (run_driving_plumbing_request st task name)) = fired (trace st)"
  by (simp add: run_driving_plumbing_request_def)

lemma run_snoc: "run ivk st (cs @ [c]) = snd (perform ivk (run ivk st cs) c)"
  by (induction cs arbitrary: st) simp_all

lemma run_CbNone:
  assumes "event_callbacks st = CbNone"
  shows "run ivk st cs = st"
  using assms by (induction cs) (simp_all add: perform_CbNone)


subsection \<open>Callbacks that only return\<close>

lemma pending_append [simp]: "pending (xs @ ys) = pending xs @ pending ys"
  by (induction xs rule: pending.induct) simp_all

lemma pending_filter_observer [simp]:
  "pending (filter (\<lambda>(cb, i). Observer n \<noteq> cb) xs) = pending xs"
  by (induction xs rule: pending.induct) auto

lemma perform_sealed_fired:
  assumes "sealed st" and "\<forall>f. c \<noteq> CallOnInterestEnd f" and "perform ivk st c = (r, st')"
  shows "fired (trace st') = fired (trace st)"
  using assms unfolding sealed_def
  by (cases c) (auto simp: perform_CbNone perform_CbFalse)

lemma run_body_contract:
  assumes "sealed st" and "keeps_contract b"
  shows "\<exists>keep st'. run_body ivk st b = (Inr keep, st')
     \<and> event_callbacks st' = event_callbacks st \<and> request st' = request st
     \<and> calls (trace st') = calls (trace st) \<and> fired (trace st') = fired (trace st)"
  using assms
proof (induction b arbitrary: st)
  case (Try c k)
  from Try.prems(2) have nc: "\<forall>f. c \<noteq> CallOnInterestEnd f" and kk: "keeps_contract k"
    by (cases c; simp)+
  obtain r1 st1 where p: "perform ivk st c = (r1, st1)" by (cases "perform ivk st c")
  from perform_sealed [OF Try.prems(1) p] perform_sealed_fired [OF Try.prems(1) nc p]
  have eq: "event_callbacks st1 = event_callbacks st" "request st1 = request st"
       "calls (trace st1) = calls (trace st)" "fired (trace st1) = fired (trace st)"
    by simp_all
  then have s1: "sealed st1" using Try.prems(1) by (simp add: sealed_def)
  from Try.IH [OF s1 kk] p eq show ?case by simp
qed simp_all

lemma invoke_plain:
  assumes "plain B" and "sealed st"
  shows "\<exists>keep st'. invoke (Suc d) B st cb e = (Inr keep, st')
     \<and> event_callbacks st' = event_callbacks st \<and> request st' = request st
     \<and> calls (trace st') = calls (trace st) @ [(cb, e)]
     \<and> fired (trace st') = fired (trace st) @ (if is_last e then pending [(cb, False)] else [])
     \<and> pending (if keep then [(cb, False)] else []) = (if is_last e then [] else pending [(cb, False)])"
proof (cases cb)
  case (Observer n)
  from assms(1) have k: "keeps_contract (B (trace st) n e)" unfolding plain_def by blast
  have s: "sealed (emit (Called cb e) st)" using assms(2) by (simp add: sealed_def)
  from run_body_contract [OF s k, of "invoke d B"] Observer show ?thesis by auto
next
  case (InterestEndLambda f)
  then show ?thesis by (auto simp: Let_def)
qed

lemma surviving_plain:
  assumes "plain B" and "sealed st"
  shows "\<exists>s st'. surviving (invoke (Suc d) B) e xs st = (Inr s, st')
     \<and> event_callbacks st' = event_callbacks st \<and> request st' = request st
     \<and> calls (trace st') = calls (trace st) @ map (\<lambda>(cb, i). (cb, e)) xs
     \<and> fired (trace st') = fired (trace st) @ (if is_last e then pending xs else [])
     \<and> pending s = (if is_last e then [] else pending xs)"
  using assms(2)
proof (induction xs arbitrary: st)
  case Nil
  show ?case by simp
next
  case (Cons p xs)
  obtain cb i where p: "p = (cb, i)" by (cases p)
  from invoke_plain [OF assms(1) Cons.prems, of d cb e] obtain keep st1
    where i1: "invoke (Suc d) B st cb e = (Inr keep, st1)"
      and f1: "event_callbacks st1 = event_callbacks st" "request st1 = request st"
      and c1: "calls (trace st1) = calls (trace st) @ [(cb, e)]"
      and g1: "fired (trace st1) = fired (trace st) @ (if is_last e then pending [(cb, False)] else [])"
      and k1: "pending (if keep then [(cb, False)] else []) = (if is_last e then [] else pending [(cb, False)])"
    by blast
  have "sealed st1" using Cons.prems f1 by (simp add: sealed_def)
  from Cons.IH [OF this] obtain s st2
    where i2: "surviving (invoke (Suc d) B) e xs st1 = (Inr s, st2)"
      and f2: "event_callbacks st2 = event_callbacks st1" "request st2 = request st1"
      and c2: "calls (trace st2) = calls (trace st1) @ map (\<lambda>(cb, i). (cb, e)) xs"
      and g2: "fired (trace st2) = fired (trace st1) @ (if is_last e then pending xs else [])"
      and k2: "pending s = (if is_last e then [] else pending xs)"
    by blast
  have pc: "pending ((cb, i) # ys) = pending [(cb, False)] @ pending ys" for ys
    by (cases cb) simp_all
  have "surviving (invoke (Suc d) B) e (p # xs) st = (Inr (if keep then (cb, i) # s else s), st2)"
    using p i1 i2 by (simp del: invoke.simps)
  moreover have "pending (if keep then (cb, i) # s else s) = (if is_last e then [] else pending (p # xs))"
    using k1 k2 p pc [of s] pc [of xs] by (simp split: if_splits)
  moreover have "fired (trace st2) = fired (trace st) @ (if is_last e then pending (p # xs) else [])"
    using g1 g2 p pc [of xs] by simp
  ultimately show ?case using f1 f2 c1 c2 p by (simp del: invoke.simps)
qed

lemma call_each_plain:
  assumes "plain B" and "sealed st"
  shows "\<exists>st'. call_each (invoke (Suc d) B) e xs st = (Inr (), st')
     \<and> event_callbacks st' = event_callbacks st \<and> request st' = request st
     \<and> calls (trace st') = calls (trace st) @ map (\<lambda>(cb, i). (cb, e)) xs
     \<and> fired (trace st') = fired (trace st) @ (if is_last e then pending xs else [])"
  using assms(2)
proof (induction xs arbitrary: st)
  case Nil
  show ?case by simp
next
  case (Cons p xs)
  obtain cb i where p: "p = (cb, i)" by (cases p)
  from invoke_plain [OF assms(1) Cons.prems, of d cb e] obtain keep st1
    where i1: "invoke (Suc d) B st cb e = (Inr keep, st1)"
      and f1: "event_callbacks st1 = event_callbacks st" "request st1 = request st"
      and c1: "calls (trace st1) = calls (trace st) @ [(cb, e)]"
      and g1: "fired (trace st1) = fired (trace st) @ (if is_last e then pending [(cb, False)] else [])"
    by blast
  have "sealed st1" using Cons.prems f1 by (simp add: sealed_def)
  from Cons.IH [OF this] obtain st2
    where i2: "call_each (invoke (Suc d) B) e xs st1 = (Inr (), st2)"
      and f2: "event_callbacks st2 = event_callbacks st1" "request st2 = request st1"
      and c2: "calls (trace st2) = calls (trace st1) @ map (\<lambda>(cb, i). (cb, e)) xs"
      and g2: "fired (trace st2) = fired (trace st1) @ (if is_last e then pending xs else [])"
    by blast
  have pc: "pending ((cb, i) # ys) = pending [(cb, False)] @ pending ys" for ys
    by (cases cb) simp_all
  have "call_each (invoke (Suc d) B) e (p # xs) st = (Inr (), st2)"
    using p i1 i2 by (simp del: invoke.simps)
  moreover have "fired (trace st2) = fired (trace st) @ (if is_last e then pending (p # xs) else [])"
    using g1 g2 p pc [of xs] by simp
  ultimately show ?case using f1 f2 c1 c2 p by (simp del: invoke.simps)
qed

lemma priv_end_plain:
  assumes "plain B" and "event_callbacks st = CbList xs"
  shows "\<exists>st'. priv_end (invoke (Suc d) B) st = (Inr (), st')
     \<and> event_callbacks st' = CbFalse \<and> request st' = request st
     \<and> calls (trace st') = calls (trace st) @ map (\<lambda>(cb, i). (cb, tombstone)) xs
     \<and> fired (trace st') = fired (trace st) @ pending xs"
proof -
  have "sealed (st\<lparr>event_callbacks := CbFalse\<rparr>)" by (simp add: sealed_def)
  from call_each_plain [OF assms(1) this, of d tombstone xs] assms(2) show ?thesis
    by (auto simp: priv_end_def tombstone_def simp del: invoke.simps)
qed

lemma priv_add_event_plain:
  assumes "plain B" and "event_callbacks st = CbList xs"
  shows "\<exists>s st'. priv_add_event (invoke (Suc d) B) st e = (Inr (), st')
     \<and> set s \<subseteq> set xs \<and> request st' = request st
     \<and> pending s = (if is_last e then [] else pending xs)
     \<and> event_callbacks st' = (if list_ex snd s then CbList s else CbFalse)
     \<and> calls (trace st') = calls (trace st) @ map (\<lambda>(cb, i). (cb, e)) xs
          @ (if list_ex snd s then [] else map (\<lambda>(cb, i). (cb, tombstone)) s)
     \<and> fired (trace st') = fired (trace st) @ (if is_last e then pending xs else [])
          @ (if list_ex snd s then [] else pending s)"
proof -
  have "sealed (st\<lparr>event_callbacks := CbNone\<rparr>)" by (simp add: sealed_def)
  from surviving_plain [OF assms(1) this, of d e xs] obtain s st2
    where i2: "surviving (invoke (Suc d) B) e xs (st\<lparr>event_callbacks := CbNone\<rparr>) = (Inr s, st2)"
      and f2: "request st2 = request st"
      and c2: "calls (trace st2) = calls (trace st) @ map (\<lambda>(cb, i). (cb, e)) xs"
      and g2: "fired (trace st2) = fired (trace st) @ (if is_last e then pending xs else [])"
      and k2: "pending s = (if is_last e then [] else pending xs)"
    by auto
  have sub: "set s \<subseteq> set xs" using i2 by (rule surviving_Inr_subset)
  show ?thesis
  proof (cases "list_ex snd s")
    case True
    then have "priv_add_event (invoke (Suc d) B) st e = (Inr (), st2\<lparr>event_callbacks := CbList s\<rparr>)"
      using assms(2) i2 by (simp add: priv_add_event_def priv_any_interest_def del: invoke.simps)
    with True sub f2 c2 g2 k2 show ?thesis
      by (intro exI [of _ s] exI [of _ "st2\<lparr>event_callbacks := CbList s\<rparr>"])
         (simp del: invoke.simps)
  next
    case False
    from priv_end_plain [OF assms(1), of "st2\<lparr>event_callbacks := CbList s\<rparr>" s d] obtain st3
      where i3: "priv_end (invoke (Suc d) B) (st2\<lparr>event_callbacks := CbList s\<rparr>) = (Inr (), st3)"
        and f3: "event_callbacks st3 = CbFalse" "request st3 = request st2"
        and c3: "calls (trace st3) = calls (trace st2) @ map (\<lambda>(cb, i). (cb, tombstone)) s"
        and g3: "fired (trace st3) = fired (trace st2) @ pending s"
      by auto
    from False have "priv_add_event (invoke (Suc d) B) st e = (Inr (), st3)"
      using assms(2) i2 i3 by (simp add: priv_add_event_def priv_any_interest_def del: invoke.simps)
    with False sub f2 c2 g2 k2 f3 c3 g3 show ?thesis
      by (intro exI [of _ s] exI [of _ st3]) (simp del: invoke.simps)
  qed
qed

lemma priv_unregister_on_event_plain:
  assumes "plain B" and "event_callbacks st = CbList xs"
    and "ys = filter (\<lambda>(cb, i). callback \<noteq> cb) xs"
  shows "\<exists>st'. priv_unregister_on_event (invoke (Suc d) B) st callback = (Inr (), st')
     \<and> request st' = request st
     \<and> event_callbacks st' = (if list_ex snd ys then CbList ys else CbFalse)
     \<and> calls (trace st') = calls (trace st)
          @ (if list_ex snd ys then [] else map (\<lambda>(cb, i). (cb, tombstone)) ys)
     \<and> fired (trace st') = fired (trace st) @ (if list_ex snd ys then [] else pending ys)"
proof (cases "list_ex snd ys")
  case True
  then show ?thesis
    using assms(2,3)
    by (simp add: priv_unregister_on_event_def priv_any_interest_def del: invoke.simps)
next
  case False
  from priv_end_plain [OF assms(1), of "st\<lparr>event_callbacks := CbList ys\<rparr>" ys d] obtain st3
    where i3: "priv_end (invoke (Suc d) B) (st\<lparr>event_callbacks := CbList ys\<rparr>) = (Inr (), st3)"
      and f3: "event_callbacks st3 = CbFalse" "request st3 = request st"
      and c3: "calls (trace st3) = calls (trace st) @ map (\<lambda>(cb, i). (cb, tombstone)) ys"
      and g3: "fired (trace st3) = fired (trace st) @ pending ys"
    by auto
  from False have "priv_unregister_on_event (invoke (Suc d) B) st callback = (Inr (), st3)"
    using assms(2,3) i3
    by (simp add: priv_unregister_on_event_def priv_any_interest_def del: invoke.simps)
  with False f3 c3 g3 show ?thesis by (simp del: invoke.simps)
qed

lemma accounted_step:
  assumes "plain B" and "accounted f st n"
  shows "accounted f (snd (perform (invoke (Suc d) B) st c))
           (n + count_list [c] (CallOnInterestEnd f))"
proof (cases "event_callbacks st")
  case CbNone
  with assms(2) show ?thesis by (simp add: accounted_def)
next
  case CbFalse
  with assms(2) show ?thesis
    by (cases c) (auto simp: perform_CbFalse accounted_def simp del: invoke.simps)
next
  case (CbList xs)
  with assms(2) have n: "count_list (fired (trace st)) f + count_list (pending xs) f = n"
    and q: "list_ex snd xs \<or> pending xs = []"
    by (simp_all add: accounted_def)
  show ?thesis
  proof (cases c)
    case (CallOnEvent m i)
    with CbList n q show ?thesis
      by (auto simp: perform_def on_event_def accounted_def simp del: invoke.simps)
  next
    case (CallUnregister m)
    define ys where "ys = filter (\<lambda>(cb, i). Observer m \<noteq> cb) xs"
    from priv_unregister_on_event_plain [OF assms(1) CbList ys_def, of d] obtain st'
      where "priv_unregister_on_event (invoke (Suc d) B) st (Observer m) = (Inr (), st')"
        and "event_callbacks st' = (if list_ex snd ys then CbList ys else CbFalse)"
        and "fired (trace st') = fired (trace st) @ (if list_ex snd ys then [] else pending ys)"
      by blast
    moreover have "pending ys = pending xs" by (simp add: ys_def)
    ultimately show ?thesis using CallUnregister n
      by (auto simp: perform_def call_handle_def accounted_def simp del: invoke.simps)
  next
    case (CallOnInterestEnd g)
    with CbList n q show ?thesis
      by (auto simp: perform_def on_interest_end_def priv_any_interest_def accounted_def
          simp del: invoke.simps)
  next
    case (CallAddResponse r l)
    from priv_add_event_plain [OF assms(1) CbList, of d "Event (Some r) None l"] obtain s st'
      where "priv_add_event (invoke (Suc d) B) st (Event (Some r) None l) = (Inr (), st')"
        and "pending s = (if l then [] else pending xs)"
        and "event_callbacks st' = (if list_ex snd s then CbList s else CbFalse)"
        and "fired (trace st') = fired (trace st) @ (if l then pending xs else [])
          @ (if list_ex snd s then [] else pending s)"
      by auto
    then show ?thesis using CallAddResponse n
      by (auto simp: perform_def add_response_def accounted_def simp del: invoke.simps)
  next
    case (CallAddException x)
    from priv_add_event_plain [OF assms(1) CbList, of d "Event None (Some x) True"] obtain s st'
      where "priv_add_event (invoke (Suc d) B) st (Event None (Some x) True) = (Inr (), st')"
        and "pending s = []"
        and "event_callbacks st' = (if list_ex snd s then CbList s else CbFalse)"
        and "fired (trace st') = fired (trace st) @ pending xs
          @ (if list_ex snd s then [] else pending s)"
      by auto
    then show ?thesis using CallAddException n
      by (auto simp: perform_def add_exception_def accounted_def simp del: invoke.simps)
  qed
qed

lemma accounted_run:
  assumes "plain B"
  shows "accounted f (run (invoke (Suc d) B) (init req) cs) (count_list cs (CallOnInterestEnd f))"
proof (induction cs rule: rev_induct)
  case Nil
  show ?case by (simp add: accounted_def init_def)
next
  case (snoc c cs)
  from accounted_step [OF assms snoc, of d c] show ?case
    by (simp add: run_snoc del: invoke.simps)
qed

subsection \<open>Any callbacks: what one method call can deliver\<close>



lemma registered_append [simp]: "registered (cs @ ds) = registered cs @ registered ds"
  by (induction cs rule: registered.induct) simp_all





subsection \<open>Who receives the tombstone when a method call ends the request\<close>





section \<open>The tombstone\<close>




section \<open>What \<^verbatim>\<open>run_driving_plumbing_request\<close> sets up\<close>

text \<open>
  C2. The function creates the task and does nothing else: no call of
  \<^verbatim>\<open>on_interest_end\<close> is made, so the observer list is as before. On a plumbing
  request with one interest-counting observer, calling that observer's handle
  afterwards ends the request, and \<^verbatim>\<open>cancel\<close> of the created task is not called.
\<close>

theorem binder_registers_no_interest_end_callback:
  "event_callbacks
     (run_driving_plumbing_request
        (run (invoke 1 (\<lambda>h n e. Return True)) (init (Message 0)) [CallOnEvent 0 True]) 7 None) =
     CbList [(Observer 0, True)]
   \<and> call_handle (invoke 1 (\<lambda>h n e. Return True))
       (run_driving_plumbing_request
         (run (invoke 1 (\<lambda>h n e. Return True)) (init (Message 0)) [CallOnEvent 0 True]) 7 None)
       (UnregisterOnEvent (Observer 0)) =
     (Inr (), \<lparr>request = Message 0, event_callbacks = CbFalse, trace = [TaskCreated 7 None]\<rparr>)
   \<and> \<not> cancel_requested 7
       (snd (call_handle (invoke 1 (\<lambda>h n e. Return True))
         (run_driving_plumbing_request
           (run (invoke 1 (\<lambda>h n e. Return True)) (init (Message 0)) [CallOnEvent 0 True]) 7 None)
         (UnregisterOnEvent (Observer 0))))"
  by code_simp

section \<open>When a push ends the request\<close>

text \<open>
  C3, as the code has it. \<^verbatim>\<open>_add_event\<close> never reads \<^verbatim>\<open>is_last\<close>. After a pass in
  which every callback returned, with \<open>s\<close> the observers that returned true: if an
  observer of \<open>s\<close> counts as interest, the request stays open with \<open>s\<close> as its
  list and no tombstone is delivered, also when the event was final; if none does, the
  field becomes \<^verbatim>\<open>False\<close> and the tombstone is delivered after the pass to the
  observers of \<open>s\<close>, in order, up to the first one that raises.
\<close>

theorem push_ends_iff_no_interest_survives:
  assumes "event_callbacks st = CbList xs"
    and "surviving (invoke d B) e xs (st\<lparr>event_callbacks := CbNone\<rparr>) = (Inr s, st2)"
  shows "set s \<subseteq> set xs
       \<and> (list_ex snd s \<longrightarrow>
            priv_add_event (invoke d B) st e = (Inr (), st2\<lparr>event_callbacks := CbList s\<rparr>))
       \<and> (\<not> list_ex snd s \<longrightarrow>
            priv_add_event (invoke d B) st e =
              call_each (invoke d B) tombstone s (st2\<lparr>event_callbacks := CbFalse\<rparr>)
            \<and> event_callbacks (snd (priv_add_event (invoke d B) st e)) = CbFalse
            \<and> (\<exists>j\<le>length s.
                  calls (trace (snd (priv_add_event (invoke d B) st e))) =
                    calls (trace st2) @ map (\<lambda>(cb, i). (cb, tombstone)) (take j s)
                  \<and> (fst (priv_add_event (invoke d B) st e) = Inr () \<longrightarrow> j = length s)))"
proof -
  have sub: "set s \<subseteq> set xs" using assms(2) by (rule surviving_Inr_subset)
  have open_case: "priv_add_event (invoke d B) st e = (Inr (), st2\<lparr>event_callbacks := CbList s\<rparr>)"
    if "list_ex snd s"
    using assms that by (simp add: priv_add_event_def priv_any_interest_def)
  have end_eq: "priv_add_event (invoke d B) st e =
      call_each (invoke d B) tombstone s (st2\<lparr>event_callbacks := CbFalse\<rparr>)"
    if "\<not> list_ex snd s"
    using assms that by (simp add: priv_add_event_def priv_any_interest_def priv_end_def)
  have end_case: "event_callbacks (snd (priv_add_event (invoke d B) st e)) = CbFalse
            \<and> (\<exists>j\<le>length s.
                  calls (trace (snd (priv_add_event (invoke d B) st e))) =
                    calls (trace st2) @ map (\<lambda>(cb, i). (cb, tombstone)) (take j s)
                  \<and> (fst (priv_add_event (invoke d B) st e) = Inr () \<longrightarrow> j = length s))"
    if n: "\<not> list_ex snd s"
  proof -
    obtain r st' where c: "call_each (invoke d B) tombstone s (st2\<lparr>event_callbacks := CbFalse\<rparr>) = (r, st')"
      by (cases "call_each (invoke d B) tombstone s (st2\<lparr>event_callbacks := CbFalse\<rparr>)")
    have "sealed (st2\<lparr>event_callbacks := CbFalse\<rparr>)" by (simp add: sealed_def)
    from call_each_sealed [OF this c] show ?thesis
      unfolding end_eq [OF n] c by auto
  qed
  from sub open_case end_eq end_case show ?thesis by blast
qed

theorem push_ends_iff_no_interest_survives_witness:
  "priv_add_event (invoke 1 (\<lambda>h n e. Return (n = 1)))
      \<lparr>request = Message 0, event_callbacks = CbList [(Observer 0, True), (Observer 1, False)],
         trace = []\<rparr>
      (Event (Some (Message 69)) None True) =
     call_each (invoke 1 (\<lambda>h n e. Return (n = 1))) tombstone [(Observer 1, False)]
       \<lparr>request = Message 0, event_callbacks = CbFalse,
          trace = [Called (Observer 0) (Event (Some (Message 69)) None True),
                   Called (Observer 1) (Event (Some (Message 69)) None True)]\<rparr>
   \<and> priv_add_event (invoke 1 (\<lambda>h n e. Return (n = 0)))
      \<lparr>request = Message 0, event_callbacks = CbList [(Observer 0, True), (Observer 1, False)],
         trace = []\<rparr>
      (Event (Some (Message 69)) None True) =
     (Inr (),
      \<lparr>request = Message 0, event_callbacks = CbList [(Observer 0, True)],
         trace = [Called (Observer 0) (Event (Some (Message 69)) None True),
                  Called (Observer 1) (Event (Some (Message 69)) None True)]\<rparr>)"
proof -
  let ?e = "Event (Some (Message 69)) None True"
  let ?st = "\<lparr>request = Message 0,
      event_callbacks = CbList [(Observer 0, True), (Observer 1, False)], trace = []\<rparr>"
  let ?st2 = "\<lparr>request = Message 0, event_callbacks = CbNone,
      trace = [Called (Observer 0) ?e, Called (Observer 1) ?e]\<rparr>"
  have h1: "event_callbacks ?st = CbList [(Observer 0, True), (Observer 1, False)]"
    by simp
  have h2: "surviving (invoke 1 (\<lambda>h n e. Return (n = 1))) ?e [(Observer 0, True), (Observer 1, False)]
      (?st\<lparr>event_callbacks := CbNone\<rparr>) = (Inr [(Observer 1, False)], ?st2)"
    by (simp add: emit_def)
  have h3: "surviving (invoke 1 (\<lambda>h n e. Return (n = 0))) ?e [(Observer 0, True), (Observer 1, False)]
      (?st\<lparr>event_callbacks := CbNone\<rparr>) = (Inr [(Observer 0, True)], ?st2)"
    by (simp add: emit_def)
  from push_ends_iff_no_interest_survives [OF h1 h2] push_ends_iff_no_interest_survives [OF h1 h3]
  show ?thesis by (simp del: invoke.simps)
qed

text \<open>
  The claim fails on a single interest-counting observer that returns true: after a
  final response, and after an exception, the request is still open, the observer is
  still registered and no tombstone has been delivered.
\<close>

theorem final_push_keeps_open_counterexample:
  "perform (invoke 1 (\<lambda>h n e. Return True))
     (run (invoke 1 (\<lambda>h n e. Return True)) (init (Message 0)) [CallOnEvent 0 True])
     (CallAddResponse (Message 69) True) =
   (Inr (),
    \<lparr>request = Message 0, event_callbacks = CbList [(Observer 0, True)],
       trace = [Called (Observer 0) (Event (Some (Message 69)) None True)]\<rparr>)
   \<and>
   perform (invoke 1 (\<lambda>h n e. Return True))
     (run (invoke 1 (\<lambda>h n e. Return True)) (init (Message 0)) [CallOnEvent 0 True])
     (CallAddException ValueError) =
   (Inr (),
    \<lparr>request = Message 0, event_callbacks = CbList [(Observer 0, True)],
       trace = [Called (Observer 0) (Event None (Some ValueError) True)]\<rparr>)"
  by code_simp

section \<open>Interest-end callbacks\<close>

text \<open>
  C4, as the code has it. Let the observers keep to the contract (each call returns a
  truth value, lets no exception escape and does not call \<^verbatim>\<open>on_interest_end\<close>
  itself), and let any sequence of registrations, unregistrations,
  \<^verbatim>\<open>on_interest_end\<close> calls and pushes be made from outside on a fresh plumbing
  request. Then for every nullary callable \<open>f\<close>: it has fired at most as often as it
  was passed to \<^verbatim>\<open>on_interest_end\<close> (never twice for one call); once the request has
  ended it has fired exactly once per call; while the request is open each call has
  either fired or left exactly one lambda waiting, and lambdas wait only while some
  observer counts as interest.

  In any state, a call made when no observer counts as interest (the list has none,
  or the request has ended) fires at once and registers nothing; otherwise it
  registers a passive lambda, which fires on the first final event it sees and is dropped by returning
  false, and returns true without firing on any other event. Accordingly a final push
  on the open request fires every waiting callable, once each and in order, and
  leaves none waiting, also when the request stays open; a push that is not final
  and an unregistration fire nothing while the request stays open and fire every
  waiting callable when they end it.

  A call of \<^verbatim>\<open>on_interest_end\<close> made while the observer field is \<^verbatim>\<open>None\<close>, that is
  from inside a callback during a pass, raises \<^verbatim>\<open>TypeError\<close>; the callable is neither
  fired nor registered.
\<close>

theorem interest_end_fires_exactly_once:
  assumes "plain B" and "st = run (invoke (Suc d) B) (init req) cs"
  shows "event_callbacks st \<noteq> CbNone
       \<and> count_list (fired (trace st)) f \<le> count_list cs (CallOnInterestEnd f)
       \<and> (event_callbacks st = CbFalse \<longrightarrow>
            count_list (fired (trace st)) f = count_list cs (CallOnInterestEnd f))
       \<and> (\<forall>xs. event_callbacks st = CbList xs \<longrightarrow>
            count_list (fired (trace st)) f + count_list (pending xs) f
              = count_list cs (CallOnInterestEnd f)
            \<and> (\<not> list_ex snd xs \<longrightarrow> pending xs = []))
       \<and> (\<forall>st0 g. event_callbacks st0 = CbFalse
              \<or> (\<exists>xs. event_callbacks st0 = CbList xs \<and> \<not> list_ex snd xs) \<longrightarrow>
            fst (on_interest_end st0 g) = Inr ()
            \<and> event_callbacks (snd (on_interest_end st0 g)) = event_callbacks st0
            \<and> fired (trace (snd (on_interest_end st0 g))) = fired (trace st0) @ [g])
       \<and> (\<forall>st0 g xs. event_callbacks st0 = CbList xs \<and> list_ex snd xs \<longrightarrow>
            on_interest_end st0 g =
              (Inr (), st0\<lparr>event_callbacks := CbList (xs @ [(InterestEndLambda g, False)])\<rparr>))
       \<and> (\<forall>g e st0. invoke (Suc d) B st0 (InterestEndLambda g) e =
            (Inr (\<not> is_last e),
             st0\<lparr>trace := trace st0 @ Called (InterestEndLambda g) e # (if is_last e then [Fired g] else [])\<rparr>))
       \<and> (\<forall>xs e r st'.
            event_callbacks st = CbList xs \<and> is_last e
            \<and> priv_add_event (invoke (Suc d) B) st e = (r, st') \<longrightarrow>
            r = Inr ()
            \<and> fired (trace st') = fired (trace st) @ pending xs
            \<and> (\<forall>ys. event_callbacks st' = CbList ys \<longrightarrow> pending ys = []))
       \<and> (\<forall>xs e r st'.
            event_callbacks st = CbList xs \<and> \<not> is_last e
            \<and> priv_add_event (invoke (Suc d) B) st e = (r, st') \<longrightarrow>
            r = Inr ()
            \<and> (\<forall>ys. event_callbacks st' = CbList ys \<longrightarrow>
                  pending ys = pending xs \<and> fired (trace st') = fired (trace st))
            \<and> (event_callbacks st' = CbFalse \<longrightarrow>
                  fired (trace st') = fired (trace st) @ pending xs))
       \<and> (\<forall>xs n r st'.
            event_callbacks st = CbList xs
            \<and> perform (invoke (Suc d) B) st (CallUnregister n) = (r, st') \<longrightarrow>
            r = Inr ()
            \<and> (\<forall>ys. event_callbacks st' = CbList ys \<longrightarrow>
                  pending ys = pending xs \<and> fired (trace st') = fired (trace st))
            \<and> (event_callbacks st' = CbFalse \<longrightarrow>
                  fired (trace st') = fired (trace st) @ pending xs))
       \<and> (\<forall>st0 g. event_callbacks st0 = CbNone \<longrightarrow> on_interest_end st0 g = (Inl TypeError, st0))"
proof -
  have a: "accounted f st (count_list cs (CallOnInterestEnd f))"
    unfolding assms(2) using assms(1) by (rule accounted_run)
  have 1: "event_callbacks st \<noteq> CbNone"
    using a by (auto simp: accounted_def)
  have 2: "count_list (fired (trace st)) f \<le> count_list cs (CallOnInterestEnd f)"
    using a by (cases "event_callbacks st") (auto simp: accounted_def)
  have 3: "event_callbacks st = CbFalse \<longrightarrow>
            count_list (fired (trace st)) f = count_list cs (CallOnInterestEnd f)"
    using a by (auto simp: accounted_def)
  have 4: "\<forall>xs. event_callbacks st = CbList xs \<longrightarrow>
            count_list (fired (trace st)) f + count_list (pending xs) f
              = count_list cs (CallOnInterestEnd f)
            \<and> (\<not> list_ex snd xs \<longrightarrow> pending xs = [])"
    using a by (auto simp: accounted_def)
  have 5: "\<forall>st0 g. event_callbacks st0 = CbFalse
              \<or> (\<exists>xs. event_callbacks st0 = CbList xs \<and> \<not> list_ex snd xs) \<longrightarrow>
            fst (on_interest_end st0 g) = Inr ()
            \<and> event_callbacks (snd (on_interest_end st0 g)) = event_callbacks st0
            \<and> fired (trace (snd (on_interest_end st0 g))) = fired (trace st0) @ [g]"
    by (auto simp: on_interest_end_def priv_any_interest_def)
  have 6: "\<forall>st0 g xs. event_callbacks st0 = CbList xs \<and> list_ex snd xs \<longrightarrow>
            on_interest_end st0 g =
              (Inr (), st0\<lparr>event_callbacks := CbList (xs @ [(InterestEndLambda g, False)])\<rparr>)"
    by (auto simp: on_interest_end_def priv_any_interest_def)
  have 7: "\<forall>g e st0. invoke (Suc d) B st0 (InterestEndLambda g) e =
            (Inr (\<not> is_last e),
             st0\<lparr>trace := trace st0 @ Called (InterestEndLambda g) e # (if is_last e then [Fired g] else [])\<rparr>)"
    by (simp add: Let_def emit_def)
  have 8: "\<forall>xs e r st'.
            event_callbacks st = CbList xs \<and> is_last e
            \<and> priv_add_event (invoke (Suc d) B) st e = (r, st') \<longrightarrow>
            r = Inr ()
            \<and> fired (trace st') = fired (trace st) @ pending xs
            \<and> (\<forall>ys. event_callbacks st' = CbList ys \<longrightarrow> pending ys = [])"
  proof (intro allI impI, elim conjE)
    fix xs e r st'
    assume op: "event_callbacks st = CbList xs" and l: "is_last e"
      and pa: "priv_add_event (invoke (Suc d) B) st e = (r, st')"
    from priv_add_event_plain [OF assms(1) op, of d e] pa obtain s
      where "r = Inr ()" and "pending s = (if is_last e then [] else pending xs)"
        and "event_callbacks st' = (if list_ex snd s then CbList s else CbFalse)"
        and "fired (trace st') = fired (trace st) @ (if is_last e then pending xs else [])
          @ (if list_ex snd s then [] else pending s)"
      by auto
    with l show "r = Inr ()
            \<and> fired (trace st') = fired (trace st) @ pending xs
            \<and> (\<forall>ys. event_callbacks st' = CbList ys \<longrightarrow> pending ys = [])"
      by (auto split: if_splits)
  qed
  have 9: "\<forall>xs e r st'.
            event_callbacks st = CbList xs \<and> \<not> is_last e
            \<and> priv_add_event (invoke (Suc d) B) st e = (r, st') \<longrightarrow>
            r = Inr ()
            \<and> (\<forall>ys. event_callbacks st' = CbList ys \<longrightarrow>
                  pending ys = pending xs \<and> fired (trace st') = fired (trace st))
            \<and> (event_callbacks st' = CbFalse \<longrightarrow>
                  fired (trace st') = fired (trace st) @ pending xs)"
  proof (intro allI impI, elim conjE)
    fix xs e r st'
    assume op: "event_callbacks st = CbList xs" and l: "\<not> is_last e"
      and pa: "priv_add_event (invoke (Suc d) B) st e = (r, st')"
    from priv_add_event_plain [OF assms(1) op, of d e] pa obtain s
      where "r = Inr ()" and "pending s = (if is_last e then [] else pending xs)"
        and "event_callbacks st' = (if list_ex snd s then CbList s else CbFalse)"
        and "fired (trace st') = fired (trace st) @ (if is_last e then pending xs else [])
          @ (if list_ex snd s then [] else pending s)"
      by auto
    with l show "r = Inr ()
            \<and> (\<forall>ys. event_callbacks st' = CbList ys \<longrightarrow>
                  pending ys = pending xs \<and> fired (trace st') = fired (trace st))
            \<and> (event_callbacks st' = CbFalse \<longrightarrow>
                  fired (trace st') = fired (trace st) @ pending xs)"
      by (auto split: if_splits)
  qed
  have 10: "\<forall>xs n r st'.
            event_callbacks st = CbList xs
            \<and> perform (invoke (Suc d) B) st (CallUnregister n) = (r, st') \<longrightarrow>
            r = Inr ()
            \<and> (\<forall>ys. event_callbacks st' = CbList ys \<longrightarrow>
                  pending ys = pending xs \<and> fired (trace st') = fired (trace st))
            \<and> (event_callbacks st' = CbFalse \<longrightarrow>
                  fired (trace st') = fired (trace st) @ pending xs)"
  proof (intro allI impI, elim conjE)
    fix xs n r st'
    assume op: "event_callbacks st = CbList xs"
      and pf: "perform (invoke (Suc d) B) st (CallUnregister n) = (r, st')"
    define ys where "ys = filter (\<lambda>(cb, i). Observer n \<noteq> cb) xs"
    have py: "pending ys = pending xs" by (simp add: ys_def)
    from pf have pu: "priv_unregister_on_event (invoke (Suc d) B) st (Observer n) = (r, st')"
      by (simp add: perform_def call_handle_def del: invoke.simps)
    from priv_unregister_on_event_plain [OF assms(1) op ys_def, of d] pu
    have "r = Inr ()"
      and "event_callbacks st' = (if list_ex snd ys then CbList ys else CbFalse)"
      and "fired (trace st') = fired (trace st) @ (if list_ex snd ys then [] else pending ys)"
      by auto
    with py show "r = Inr ()
            \<and> (\<forall>ys. event_callbacks st' = CbList ys \<longrightarrow>
                  pending ys = pending xs \<and> fired (trace st') = fired (trace st))
            \<and> (event_callbacks st' = CbFalse \<longrightarrow>
                  fired (trace st') = fired (trace st) @ pending xs)"
      by (auto split: if_splits)
  qed
  have 11: "\<forall>st0 g. event_callbacks st0 = CbNone \<longrightarrow> on_interest_end st0 g = (Inl TypeError, st0)"
    by (simp add: on_interest_end_def priv_any_interest_def)
  show ?thesis
    apply (rule conjI, rule 1)
    apply (rule conjI, rule 2)
    apply (rule conjI, rule 3)
    apply (rule conjI, rule 4)
    apply (rule conjI, rule 5)
    apply (rule conjI, rule 6)
    apply (rule conjI, rule 7)
    apply (rule conjI, rule 8)
    apply (rule conjI, rule 9)
    apply (rule conjI, rule 10)
    apply (rule 11)
    done
qed

theorem interest_end_fires_exactly_once_witness:
  "plain (\<lambda>h n e. Return True)
   \<and> event_callbacks (run (invoke (Suc 0) (\<lambda>h n e. Return True)) (init (Message 0))
        [CallOnInterestEnd (Callable 1), CallOnEvent 0 True, CallOnInterestEnd (Callable 1),
         CallAddResponse (Message 69) False, CallUnregister 0,
         CallOnInterestEnd (Callable 1)]) = CbFalse
   \<and> count_list (fired (trace (run (invoke (Suc 0) (\<lambda>h n e. Return True)) (init (Message 0))
        [CallOnInterestEnd (Callable 1), CallOnEvent 0 True, CallOnInterestEnd (Callable 1),
         CallAddResponse (Message 69) False, CallUnregister 0,
         CallOnInterestEnd (Callable 1)]))) (Callable 1) = 3
   \<and> event_callbacks (run (invoke (Suc 0) (\<lambda>h n e. Return True)) (init (Message 0))
        [CallOnEvent 0 True, CallOnInterestEnd (Callable 1), CallAddResponse (Message 69) False]) =
       CbList [(Observer 0, True), (InterestEndLambda (Callable 1), False)]
   \<and> count_list (fired (trace (run (invoke (Suc 0) (\<lambda>h n e. Return True)) (init (Message 0))
        [CallOnEvent 0 True, CallOnInterestEnd (Callable 1), CallAddResponse (Message 69) False])))
        (Callable 1) = 0
   \<and> is_last (Event (Some (Message 69)) None True)
   \<and> fired (trace (snd (priv_add_event (invoke (Suc 0) (\<lambda>h n e. Return True))
        (run (invoke (Suc 0) (\<lambda>h n e. Return True)) (init (Message 0))
           [CallOnEvent 0 True, CallOnInterestEnd (Callable 1), CallAddResponse (Message 69) False])
        (Event (Some (Message 69)) None True)))) = [Callable 1]
   \<and> priv_add_event (invoke (Suc 0) (\<lambda>h n e. Return True))
        (run (invoke (Suc 0) (\<lambda>h n e. Return True)) (init (Message 0))
           [CallOnEvent 0 True, CallOnInterestEnd (Callable 1), CallAddResponse (Message 69) False])
        (Event (Some (Message 69)) None True) =
       (Inr (),
        \<lparr>request = Message 0, event_callbacks = CbList [(Observer 0, True)],
           trace = [Called (Observer 0) (Event (Some (Message 69)) None False),
                    Called (InterestEndLambda (Callable 1)) (Event (Some (Message 69)) None False),
                    Called (Observer 0) (Event (Some (Message 69)) None True),
                    Called (InterestEndLambda (Callable 1)) (Event (Some (Message 69)) None True),
                    Fired (Callable 1)]\<rparr>)"
proof -
  let ?B = "\<lambda>(h::effect list) (n::nat) (e::event). Return True"
  let ?cs = "[CallOnInterestEnd (Callable 1), CallOnEvent 0 True, CallOnInterestEnd (Callable 1),
         CallAddResponse (Message 69) False, CallUnregister 0, CallOnInterestEnd (Callable 1)]"
  let ?ds = "[CallOnEvent 0 True, CallOnInterestEnd (Callable 1), CallAddResponse (Message 69) False]"
  let ?st = "run (invoke (Suc 0) ?B) (init (Message 0)) ?cs"
  let ?su = "run (invoke (Suc 0) ?B) (init (Message 0)) ?ds"
  let ?xs = "[(Observer 0, True), (InterestEndLambda (Callable 1), False)]"
  let ?e = "Event (Some (Message 69)) None True"
  have p: "plain ?B" by (simp add: plain_def)
  have e: "event_callbacks ?st = CbFalse" by code_simp
  have n: "count_list ?cs (CallOnInterestEnd (Callable 1)) = 3" by simp
  note t1 = interest_end_fires_exactly_once [OF p refl, of 0 "Message 0" ?cs "Callable 1"]
  from t1 [THEN conjunct2, THEN conjunct2, THEN conjunct1] e
  have "count_list (fired (trace ?st)) (Callable 1) = count_list ?cs (CallOnInterestEnd (Callable 1))"
    by (rule mp)
  with n have 1: "count_list (fired (trace ?st)) (Callable 1) = 3" by (simp only:)
  have f: "event_callbacks ?su = CbList ?xs" by code_simp
  have g: "fired (trace ?su) = []" by code_simp
  have m: "count_list ?ds (CallOnInterestEnd (Callable 1)) = 1" "count_list (pending ?xs) (Callable 1) = 1"
    "pending ?xs = [Callable 1]"
    by simp_all
  note t2 = interest_end_fires_exactly_once [OF p refl, of 0 "Message 0" ?ds "Callable 1"]
  from t2 [THEN conjunct2, THEN conjunct2, THEN conjunct2, THEN conjunct1] f
  have "count_list (fired (trace ?su)) (Callable 1) + count_list (pending ?xs) (Callable 1)
        = count_list ?ds (CallOnInterestEnd (Callable 1))"
    by blast
  then have 2: "count_list (fired (trace ?su)) (Callable 1) = 0"
    unfolding m by simp
  have l: "is_last ?e" by simp
  have pc: "priv_add_event (invoke (Suc 0) ?B) ?su ?e =
      (fst (priv_add_event (invoke (Suc 0) ?B) ?su ?e), snd (priv_add_event (invoke (Suc 0) ?B) ?su ?e))"
    by (simp only: prod.collapse)
  from t2 [THEN conjunct2, THEN conjunct2, THEN conjunct2, THEN conjunct2, THEN conjunct2,
      THEN conjunct2, THEN conjunct2, THEN conjunct1] f l pc
  have "fired (trace (snd (priv_add_event (invoke (Suc 0) ?B) ?su ?e))) = fired (trace ?su) @ pending ?xs"
    by blast
  then have 3: "fired (trace (snd (priv_add_event (invoke (Suc 0) ?B) ?su ?e))) = [Callable 1]"
    unfolding g m by simp
  have 4: "priv_add_event (invoke (Suc 0) ?B) ?su ?e =
       (Inr (),
        \<lparr>request = Message 0, event_callbacks = CbList [(Observer 0, True)],
           trace = [Called (Observer 0) (Event (Some (Message 69)) None False),
                    Called (InterestEndLambda (Callable 1)) (Event (Some (Message 69)) None False),
                    Called (Observer 0) (Event (Some (Message 69)) None True),
                    Called (InterestEndLambda (Callable 1)) (Event (Some (Message 69)) None True),
                    Fired (Callable 1)]\<rparr>)"
    by code_simp
  from p e 1 f 2 l 3 4 show ?thesis by blast
qed

text \<open>
  The claim fails in two ways, each leaving a callable that was passed to
  \<^verbatim>\<open>on_interest_end\<close> unfired for good on a request that has ended. First, a passive
  observer that raises on the tombstone is listed before the waiting lambda: when
  the interest-counting observer is unregistered the request ends, the tombstone goes
  to the raising observer, and the lambda is never called. Second, an observer calls
  \<^verbatim>\<open>on_interest_end\<close> (guarded) from inside its callback during a pass: the call
  raises \<^verbatim>\<open>TypeError\<close>, nothing is fired or registered, and when the request ends
  later nothing fires either.
\<close>

theorem interest_end_never_fires_counterexample:
  "run (invoke 1 (\<lambda>h n e. if n = 0 \<and> is_last e then Raise (OtherException 7) else Return True))
      (init (Message 0))
      [CallOnEvent 0 False, CallOnEvent 1 True, CallOnInterestEnd (Callable 1), CallUnregister 1] =
     \<lparr>request = Message 0, event_callbacks = CbFalse,
        trace = [Called (Observer 0) (Event None None True)]\<rparr>
   \<and> run (invoke 2 (\<lambda>h n e. Try (CallOnInterestEnd (Callable 1)) (Return True)))
      (init (Message 0))
      [CallOnEvent 0 True, CallAddResponse (Message 69) False, CallUnregister 0] =
     \<lparr>request = Message 0, event_callbacks = CbFalse,
        trace = [Called (Observer 0) (Event (Some (Message 69)) None False)]\<rparr>"
  by code_simp

section \<open>Method calls made by a callback during a pass\<close>

text \<open>
  C5, as the code has it. While the observer field is \<^verbatim>\<open>None\<close>, \<^verbatim>\<open>add_response\<close>
  and \<^verbatim>\<open>add_exception\<close> raise \<^verbatim>\<open>TypeError\<close> and change nothing; in particular they
  call no callback. A callback that guards such a push goes on as if it had not made
  it; one that makes it unguarded is left by the \<^verbatim>\<open>TypeError\<close>. Whatever the
  callbacks attempt, the calls made by one pass are calls of the listed observers, in
  the order of the list, each at most once and each with the event of that pass.
\<close>

theorem push_during_pass_rejected:
  assumes "event_callbacks st = CbNone"
  shows "add_response ivk st r final = (Inl TypeError, st)
       \<and> add_exception ivk st x = (Inl TypeError, st)
       \<and> run_body ivk st (Do (CallAddResponse r final) k) = (Inl TypeError, st)
       \<and> run_body ivk st (Do (CallAddException x) k) = (Inl TypeError, st)
       \<and> run_body ivk st (Try (CallAddResponse r final) k) = run_body ivk st k
       \<and> run_body ivk st (Try (CallAddException x) k) = run_body ivk st k
       \<and> (\<forall>res st'. surviving (invoke d B) e xs st = (res, st') \<longrightarrow>
            event_callbacks st' = CbNone
            \<and> (\<exists>j\<le>length xs.
                  calls (trace st') = calls (trace st) @ map (\<lambda>(cb, i). (cb, e)) (take j xs)
                  \<and> (\<forall>s. res = Inr s \<longrightarrow> j = length xs)))"
proof -
  have s: "sealed st" using assms by (simp add: sealed_def)
  have "\<forall>res st'. surviving (invoke d B) e xs st = (res, st') \<longrightarrow>
            event_callbacks st' = CbNone
            \<and> (\<exists>j\<le>length xs.
                  calls (trace st') = calls (trace st) @ map (\<lambda>(cb, i). (cb, e)) (take j xs)
                  \<and> (\<forall>s. res = Inr s \<longrightarrow> j = length xs))"
    using surviving_sealed [OF s] assms by metis
  then show ?thesis
    using assms by (simp add: perform_def add_response_def add_exception_def priv_add_event_def)
qed

theorem push_during_pass_rejected_witness:
  "add_response (invoke 1 (\<lambda>h n e. Return True))
      \<lparr>request = Message 0, event_callbacks = CbNone, trace = []\<rparr> (Message 69) False =
     (Inl TypeError, \<lparr>request = Message 0, event_callbacks = CbNone, trace = []\<rparr>)
   \<and> add_exception (invoke 1 (\<lambda>h n e. Return True))
      \<lparr>request = Message 0, event_callbacks = CbNone, trace = []\<rparr> ValueError =
     (Inl TypeError, \<lparr>request = Message 0, event_callbacks = CbNone, trace = []\<rparr>)
   \<and> run_body (invoke 1 (\<lambda>h n e. Return True))
      \<lparr>request = Message 0, event_callbacks = CbNone, trace = []\<rparr>
      (Try (CallAddResponse (Message 69) False) (Return True)) =
     (Inr True, \<lparr>request = Message 0, event_callbacks = CbNone, trace = []\<rparr>)
   \<and> surviving
        (invoke 2 (\<lambda>h n e. if n = 0 then Try (CallAddResponse (Message 132) False) (Return True)
                          else Return True))
        (Event (Some (Message 69)) None False) [(Observer 0, True), (Observer 1, True)]
        \<lparr>request = Message 0, event_callbacks = CbNone, trace = []\<rparr> =
     (Inr [(Observer 0, True), (Observer 1, True)],
      \<lparr>request = Message 0, event_callbacks = CbNone,
         trace = [Called (Observer 0) (Event (Some (Message 69)) None False),
                  Called (Observer 1) (Event (Some (Message 69)) None False)]\<rparr>)
   \<and> (\<exists>j\<le>2. calls [Called (Observer 0) (Event (Some (Message 69)) None False),
                     Called (Observer 1) (Event (Some (Message 69)) None False)] =
         map (\<lambda>(cb, i). (cb, Event (Some (Message 69)) None False))
           (take j [(Observer 0, True), (Observer 1, True)]))"
proof -
  let ?K = "\<lambda>(h::effect list) (n::nat) (e::event). Return True"
  let ?B = "\<lambda>(h::effect list) (n::nat) (e::event).
      if n = 0 then Try (CallAddResponse (Message 132) False) (Return True) else Return True"
  let ?e = "Event (Some (Message 69)) None False"
  let ?xs = "[(Observer 0, True), (Observer 1, True)]"
  let ?st = "\<lparr>request = Message 0, event_callbacks = CbNone, trace = []\<rparr>"
  let ?st' = "\<lparr>request = Message 0, event_callbacks = CbNone,
      trace = [Called (Observer 0) ?e, Called (Observer 1) ?e]\<rparr>"
  have h: "event_callbacks ?st = CbNone" by simp
  note t = push_during_pass_rejected
    [OF h, of "invoke 1 ?K" "Message 69" False ValueError "Return True" 2 ?B ?e ?xs]
  have sv: "surviving (invoke 2 ?B) ?e ?xs ?st = (Inr ?xs, ?st')" by code_simp
  from t have 1: "add_response (invoke 1 ?K) ?st (Message 69) False = (Inl TypeError, ?st)"
    and 2: "add_exception (invoke 1 ?K) ?st ValueError = (Inl TypeError, ?st)"
    and "run_body (invoke 1 ?K) ?st (Try (CallAddResponse (Message 69) False) (Return True))
       = run_body (invoke 1 ?K) ?st (Return True)"
    by blast+
  then have 3: "run_body (invoke 1 ?K) ?st (Try (CallAddResponse (Message 69) False) (Return True))
       = (Inr True, ?st)"
    by (simp only: run_body.simps)
  from t sv have "\<exists>j\<le>length ?xs.
      calls (trace ?st') = calls (trace ?st) @ map (\<lambda>(cb, i). (cb, ?e)) (take j ?xs)
      \<and> (\<forall>s. Inr ?xs = Inr s \<longrightarrow> j = length ?xs)"
    by blast
  then have 4: "\<exists>j\<le>2. calls [Called (Observer 0) ?e, Called (Observer 1) ?e] =
      map (\<lambda>(cb, i). (cb, ?e)) (take j ?xs)"
    by auto
  from 1 2 3 sv 4 show ?thesis by blast
qed

text \<open>
  The claim fails on two observers of which the first pushes a response during the
  pass without guarding the call: the outer push raises \<^verbatim>\<open>TypeError\<close>, the second
  observer never receives the outer event, the observer field is left at \<^verbatim>\<open>None\<close>,
  and the next push from outside raises as well.
\<close>

theorem push_during_pass_counterexample:
  "perform (invoke 2 (\<lambda>h n e. if n = 0 then Do (CallAddResponse (Message 132) False) (Return True) else Return True))
     (run (invoke 2 (\<lambda>h n e. if n = 0 then Do (CallAddResponse (Message 132) False) (Return True) else Return True))
        (init (Message 0)) [CallOnEvent 0 True, CallOnEvent 1 True])
     (CallAddResponse (Message 69) False) =
   (Inl TypeError,
    \<lparr>request = Message 0, event_callbacks = CbNone,
       trace = [Called (Observer 0) (Event (Some (Message 69)) None False)]\<rparr>)
   \<and>
   perform (invoke 2 (\<lambda>h n e. if n = 0 then Do (CallAddResponse (Message 132) False) (Return True) else Return True))
     \<lparr>request = Message 0, event_callbacks = CbNone,
       trace = [Called (Observer 0) (Event (Some (Message 69)) None False)]\<rparr>
     (CallAddResponse (Message 69) True) =
   (Inl TypeError,
    \<lparr>request = Message 0, event_callbacks = CbNone,
       trace = [Called (Observer 0) (Event (Some (Message 69)) None False)]\<rparr>)"
  by code_simp

text \<open>
  C6, as the code has it. While the observer field is \<^verbatim>\<open>None\<close> (a pass is running),
  calling an unregister handle raises \<^verbatim>\<open>TypeError\<close> and changes nothing: the observer
  list is not touched, and no removal is recorded for later. A callback that makes the
  call unguarded is left by the \<^verbatim>\<open>TypeError\<close>; one that guards the call goes on as if
  it had not made it.
\<close>

theorem unregister_during_pass_raises:
  assumes "event_callbacks st = CbNone"
  shows "call_handle ivk st (UnregisterOnEvent callback) = (Inl TypeError, st)
       \<and> run_body ivk st (Do (CallUnregister n) k) = (Inl TypeError, st)
       \<and> run_body ivk st (Try (CallUnregister n) k) = run_body ivk st k"
  using assms by (simp add: perform_def call_handle_def priv_unregister_on_event_def)

theorem unregister_during_pass_raises_witness:
  "call_handle (invoke 1 (\<lambda>h n e. Return True))
      \<lparr>request = Message 0, event_callbacks = CbNone, trace = []\<rparr>
      (UnregisterOnEvent (Observer 0)) =
     (Inl TypeError, \<lparr>request = Message 0, event_callbacks = CbNone, trace = []\<rparr>)"
  using unregister_during_pass_raises
    [of "\<lparr>request = Message 0, event_callbacks = CbNone, trace = []\<rparr>"
        "invoke 1 (\<lambda>h n e. Return True)" "Observer 0" 0 "Return True"]
  by simp

text \<open>
  The claim fails on two observers of which the first calls its own handle during
  the pass. Unguarded, the push raises \<^verbatim>\<open>TypeError\<close>, the second observer is never
  called and the field stays \<^verbatim>\<open>None\<close>. Guarded, the pass completes and the first
  observer is still registered afterwards: the removal was not deferred, it was lost.
\<close>

theorem unregister_during_pass_counterexample:
  "perform (invoke 2 (\<lambda>h n e. if n = 0 then Do (CallUnregister 0) (Return True) else Return True))
     (run (invoke 2 (\<lambda>h n e. if n = 0 then Do (CallUnregister 0) (Return True) else Return True))
        (init (Message 0)) [CallOnEvent 0 True, CallOnEvent 1 True])
     (CallAddResponse (Message 69) False) =
   (Inl TypeError,
    \<lparr>request = Message 0, event_callbacks = CbNone,
       trace = [Called (Observer 0) (Event (Some (Message 69)) None False)]\<rparr>)
   \<and>
   perform (invoke 2 (\<lambda>h n e. if n = 0 then Try (CallUnregister 0) (Return True) else Return True))
     (run (invoke 2 (\<lambda>h n e. if n = 0 then Try (CallUnregister 0) (Return True) else Return True))
        (init (Message 0)) [CallOnEvent 0 True, CallOnEvent 1 True])
     (CallAddResponse (Message 69) False) =
   (Inr (),
    \<lparr>request = Message 0,
       event_callbacks = CbList [(Observer 0, True), (Observer 1, True)],
       trace = [Called (Observer 0) (Event (Some (Message 69)) None False),
                Called (Observer 1) (Event (Some (Message 69)) None False)]\<rparr>)"
  by code_simp

section \<open>Pushing after the end\<close>

text \<open>
  C7. Once the observer field is \<^verbatim>\<open>False\<close> (the request has ended), \<^verbatim>\<open>add_response\<close>
  and \<^verbatim>\<open>add_exception\<close> return normally, whatever the callbacks would do; the only
  thing that happens is one record at warning level. No callback is called and the
  observer field and the request stay as they were.
\<close>

theorem late_push_dropped_with_warning:
  assumes "event_callbacks st = CbFalse"
  shows "add_response ivk st r final =
           (Inr (), st\<lparr>trace := trace st @
              [Logged WARNING (ResponseAddedAfterEnded (Event (Some r) None final))]\<rparr>)
       \<and> add_exception ivk st x =
           (Inr (), st\<lparr>trace := trace st @
              [Logged WARNING (ResponseAddedAfterEnded (Event None (Some x) True))]\<rparr>)"
  using assms by (simp add: add_response_def add_exception_def priv_add_event_def emit_def)

theorem late_push_dropped_with_warning_witness:
  "event_callbacks \<lparr>request = Message 0, event_callbacks = CbFalse, trace = []\<rparr> = CbFalse
   \<and> add_response (invoke 1 (\<lambda>h n e. Return True))
        \<lparr>request = Message 0, event_callbacks = CbFalse, trace = []\<rparr> (Message 69) True =
      (Inr (), \<lparr>request = Message 0, event_callbacks = CbFalse,
         trace = [Logged WARNING (ResponseAddedAfterEnded (Event (Some (Message 69)) None True))]\<rparr>)
   \<and> add_exception (invoke 1 (\<lambda>h n e. Return True))
        \<lparr>request = Message 0, event_callbacks = CbFalse, trace = []\<rparr> ValueError =
      (Inr (), \<lparr>request = Message 0, event_callbacks = CbFalse,
         trace = [Logged WARNING (ResponseAddedAfterEnded (Event None (Some ValueError) True))]\<rparr>)"
  using late_push_dropped_with_warning
    [of "\<lparr>request = Message 0, event_callbacks = CbFalse, trace = []\<rparr>"
        "invoke 1 (\<lambda>h n e. Return True)" "Message 69" True ValueError]
  by simp

section \<open>How the binder ends\<close>

text \<open>
  C8. \<open>wrapped\<close> after a renderable error logs at info level and makes exactly one
  call \<^verbatim>\<open>add_response(msg, is_last=True)\<close>, with the message of \<^verbatim>\<open>to_message\<close>, or,
  after an error-level record, with the internal-server-error message if
  \<^verbatim>\<open>to_message\<close> returned \<^verbatim>\<open>None\<close> or raised an \<^verbatim>\<open>Exception\<close>. After any other
  \<^verbatim>\<open>Exception\<close> it makes exactly one call \<^verbatim>\<open>add_response\<close> with the
  internal-server-error message and \<^verbatim>\<open>is_last=True\<close>, and then logs at error level.
  After \<^verbatim>\<open>CancelledError\<close> it does nothing at all. Seen from the observers of
  an open plumbing request (observers that keep to the contract): each registered
  observer is called exactly once with the event the specification names, then the
  survivors receive the tombstone if none of them counts as interest; on normal
  completion and on cancellation no observer is called.
\<close>

theorem binder_pushes_one_final_response:
  "wrapped ise ivk st (RaisedRenderableError (ToMessageReturns (Some m))) =
     add_response ivk (emit (Logged INFO RenderableErrorRaised) st) m True
   \<and> wrapped ise ivk st (RaisedRenderableError (ToMessageReturns None)) =
     add_response ivk
       (emit (Logged ERROR (RenderingFailed ValueError)) (emit (Logged INFO RenderableErrorRaised) st))
       (Message ise) True
   \<and> (is_Exception x \<longrightarrow>
        wrapped ise ivk st (RaisedRenderableError (ToMessageRaises x)) =
          add_response ivk
            (emit (Logged ERROR (RenderingFailed x)) (emit (Logged INFO RenderableErrorRaised) st))
            (Message ise) True)
   \<and> (is_Exception x \<longrightarrow>
        wrapped ise ivk st (Raised x) =
          (case add_response ivk st (Message ise) True of
             (Inl y, st') \<Rightarrow> (Inl y, st')
           | (Inr u, st') \<Rightarrow> (Inr (), emit (Logged ERROR (ExceptionWhileRendering x)) st')))
   \<and> wrapped ise ivk st (Raised CancelledError) = (Inr (), st)
   \<and> (plain B \<and> event_callbacks st = CbList xs \<and> ordinary out \<longrightarrow>
        (\<exists>s st'. wrapped ise (invoke (Suc d) B) st out = (Inr (), st')
           \<and> set s \<subseteq> set xs
           \<and> calls (trace st') = calls (trace st) @
                (case spec_binder_push ise out of
                   None \<Rightarrow> []
                 | Some ev \<Rightarrow>
                     map (\<lambda>(cb, i). (cb, ev)) xs
                     @ (if list_ex snd s then [] else map (\<lambda>(cb, i). (cb, tombstone)) s))
           \<and> (\<forall>y. out = Raised y \<and> y \<noteq> CancelledError \<longrightarrow>
                 last (trace st') = Logged ERROR (ExceptionWhileRendering y))))"
proof -
  have 1: "wrapped ise ivk st (RaisedRenderableError (ToMessageReturns (Some m))) =
     add_response ivk (emit (Logged INFO RenderableErrorRaised) st) m True"
    by (simp add: wrapped_def)
  have 2: "wrapped ise ivk st (RaisedRenderableError (ToMessageReturns None)) =
     add_response ivk
       (emit (Logged ERROR (RenderingFailed ValueError)) (emit (Logged INFO RenderableErrorRaised) st))
       (Message ise) True"
    by (simp add: wrapped_def)
  have 3: "is_Exception x \<longrightarrow>
        wrapped ise ivk st (RaisedRenderableError (ToMessageRaises x)) =
          add_response ivk
            (emit (Logged ERROR (RenderingFailed x)) (emit (Logged INFO RenderableErrorRaised) st))
            (Message ise) True"
    by (simp add: wrapped_def)
  have 4: "is_Exception x \<longrightarrow>
        wrapped ise ivk st (Raised x) =
          (case add_response ivk st (Message ise) True of
             (Inl y, st') \<Rightarrow> (Inl y, st')
           | (Inr u, st') \<Rightarrow> (Inr (), emit (Logged ERROR (ExceptionWhileRendering x)) st'))"
    by (auto simp: wrapped_def)
  have 5: "wrapped ise ivk st (Raised CancelledError) = (Inr (), st)"
    by (simp add: wrapped_def)
  have 6: "\<exists>s st'. wrapped ise (invoke (Suc d) B) st out = (Inr (), st')
           \<and> set s \<subseteq> set xs
           \<and> calls (trace st') = calls (trace st) @
                (case spec_binder_push ise out of
                   None \<Rightarrow> []
                 | Some ev \<Rightarrow>
                     map (\<lambda>(cb, i). (cb, ev)) xs
                     @ (if list_ex snd s then [] else map (\<lambda>(cb, i). (cb, tombstone)) s))
           \<and> (\<forall>y. out = Raised y \<and> y \<noteq> CancelledError \<longrightarrow>
                 last (trace st') = Logged ERROR (ExceptionWhileRendering y))"
    if pl: "plain B" and op: "event_callbacks st = CbList xs" and ord: "ordinary out"
  proof -
    have push: "\<exists>s st'. add_response (invoke (Suc d) B) st0 msg True = (Inr (), st')
           \<and> set s \<subseteq> set xs
           \<and> calls (trace st') = calls (trace st) @ map (\<lambda>(cb, i). (cb, Event (Some msg) None True)) xs
                @ (if list_ex snd s then [] else map (\<lambda>(cb, i). (cb, tombstone)) s)"
      if "event_callbacks st0 = CbList xs" and "calls (trace st0) = calls (trace st)" for st0 msg
      using priv_add_event_plain [OF pl that(1), of d "Event (Some msg) None True"] that(2)
      unfolding add_response_def by metis
    show ?thesis
    proof (cases out)
      case Returned
      then show ?thesis by (intro exI [of _ "[]"]) (simp add: wrapped_def)
    next
      case (RaisedRenderableError tm)
      show ?thesis
      proof (cases tm)
        case (ToMessageReturns r)
        show ?thesis
        proof (cases r)
          case None
          from push [of "emit (Logged ERROR (RenderingFailed ValueError)) (emit (Logged INFO RenderableErrorRaised) st)" "Message ise"] op
          obtain s st' where "add_response (invoke (Suc d) B)
              (emit (Logged ERROR (RenderingFailed ValueError)) (emit (Logged INFO RenderableErrorRaised) st))
              (Message ise) True = (Inr (), st')"
            and "set s \<subseteq> set xs"
            and "calls (trace st') = calls (trace st) @ map (\<lambda>(cb, i). (cb, Event (Some (Message ise)) None True)) xs
                @ (if list_ex snd s then [] else map (\<lambda>(cb, i). (cb, tombstone)) s)"
            by auto
          with RaisedRenderableError ToMessageReturns None show ?thesis
            by (intro exI [of _ s] exI [of _ st']) (simp add: wrapped_def del: invoke.simps)
        next
          case (Some msg)
          from push [of "emit (Logged INFO RenderableErrorRaised) st" msg] op
          obtain s st' where "add_response (invoke (Suc d) B)
              (emit (Logged INFO RenderableErrorRaised) st) msg True = (Inr (), st')"
            and "set s \<subseteq> set xs"
            and "calls (trace st') = calls (trace st) @ map (\<lambda>(cb, i). (cb, Event (Some msg) None True)) xs
                @ (if list_ex snd s then [] else map (\<lambda>(cb, i). (cb, tombstone)) s)"
            by auto
          with RaisedRenderableError ToMessageReturns Some show ?thesis
            by (intro exI [of _ s] exI [of _ st']) (simp add: wrapped_def del: invoke.simps)
        qed
      next
        case (ToMessageRaises y)
        with ord RaisedRenderableError have ex: "is_Exception y" by simp
        from push [of "emit (Logged ERROR (RenderingFailed y)) (emit (Logged INFO RenderableErrorRaised) st)" "Message ise"] op
        obtain s st' where "add_response (invoke (Suc d) B)
            (emit (Logged ERROR (RenderingFailed y)) (emit (Logged INFO RenderableErrorRaised) st))
            (Message ise) True = (Inr (), st')"
          and "set s \<subseteq> set xs"
          and "calls (trace st') = calls (trace st) @ map (\<lambda>(cb, i). (cb, Event (Some (Message ise)) None True)) xs
              @ (if list_ex snd s then [] else map (\<lambda>(cb, i). (cb, tombstone)) s)"
          by auto
        with RaisedRenderableError ToMessageRaises ex show ?thesis
          by (intro exI [of _ s] exI [of _ st']) (simp add: wrapped_def del: invoke.simps)
      qed
    next
      case (Raised y)
      show ?thesis
      proof (cases "y = CancelledError")
        case True
        with Raised show ?thesis by (intro exI [of _ "[]"]) (simp add: wrapped_def)
      next
        case False
        with ord Raised have ex: "is_Exception y" by simp
        from push [of st "Message ise"] op
        obtain s st' where "add_response (invoke (Suc d) B) st (Message ise) True = (Inr (), st')"
          and "set s \<subseteq> set xs"
          and "calls (trace st') = calls (trace st) @ map (\<lambda>(cb, i). (cb, Event (Some (Message ise)) None True)) xs
              @ (if list_ex snd s then [] else map (\<lambda>(cb, i). (cb, tombstone)) s)"
          by auto
        with Raised False ex show ?thesis
          by (intro exI [of _ s] exI [of _ "emit (Logged ERROR (ExceptionWhileRendering y)) st'"])
             (simp add: wrapped_def del: invoke.simps)
      qed
    qed
  qed
  from 1 2 3 4 5 6 show ?thesis by blast
qed

theorem binder_pushes_one_final_response_witness:
  "is_Exception ValueError
   \<and> wrapped 160 (invoke (Suc 0) (\<lambda>h n e. Return True))
        \<lparr>request = Message 0, event_callbacks = CbList [(Observer 0, True)], trace = []\<rparr>
        (Raised ValueError) =
       (Inr (),
        \<lparr>request = Message 0, event_callbacks = CbList [(Observer 0, True)],
           trace = [Called (Observer 0) (Event (Some (Message 160)) None True),
                    Logged ERROR (ExceptionWhileRendering ValueError)]\<rparr>)
   \<and> wrapped 160 (invoke (Suc 0) (\<lambda>h n e. Return True))
        \<lparr>request = Message 0, event_callbacks = CbList [(Observer 0, True)], trace = []\<rparr>
        (RaisedRenderableError (ToMessageReturns (Some (Message 132)))) =
       (Inr (),
        \<lparr>request = Message 0, event_callbacks = CbList [(Observer 0, True)],
           trace = [Logged INFO RenderableErrorRaised,
                    Called (Observer 0) (Event (Some (Message 132)) None True)]\<rparr>)
   \<and> wrapped 160 (invoke (Suc 0) (\<lambda>h n e. Return True))
        \<lparr>request = Message 0, event_callbacks = CbList [(Observer 0, True)], trace = []\<rparr>
        (Raised CancelledError) =
       (Inr (), \<lparr>request = Message 0, event_callbacks = CbList [(Observer 0, True)], trace = []\<rparr>)
   \<and> plain (\<lambda>h n e. Return True)
   \<and> ordinary (RaisedRenderableError (ToMessageReturns None))
   \<and> (\<exists>s st'. wrapped 160 (invoke (Suc 0) (\<lambda>h n e. Return True))
          \<lparr>request = Message 0, event_callbacks = CbList [(Observer 0, True)], trace = []\<rparr>
          (RaisedRenderableError (ToMessageReturns None)) = (Inr (), st')
        \<and> calls (trace st') =
            (Observer 0, Event (Some (Message 160)) None True)
            # (if list_ex snd s then [] else map (\<lambda>(cb, i). (cb, tombstone)) s))"
proof -
  let ?K = "\<lambda>(h::effect list) (n::nat) (e::event). Return True"
  let ?ivk = "invoke (Suc 0) ?K"
  let ?xs = "[(Observer 0, True)]"
  let ?st = "\<lparr>request = Message 0, event_callbacks = CbList ?xs, trace = []\<rparr>"
  let ?out = "RaisedRenderableError (ToMessageReturns None)"
  note t = binder_pushes_one_final_response
    [of 160 ?ivk ?st "Message 132" ValueError ?K ?xs ?out 0]
  have e: "is_Exception ValueError" by simp
  have p: "plain ?K" by (simp add: plain_def)
  have q: "ordinary ?out" by simp
  have o: "event_callbacks ?st = CbList ?xs" by simp
  have a: "add_response ?ivk ?st (Message 160) True =
      (Inr (), \<lparr>request = Message 0, event_callbacks = CbList [(Observer 0, True)],
           trace = [Called (Observer 0) (Event (Some (Message 160)) None True)]\<rparr>)"
    by code_simp
  have b: "add_response ?ivk (emit (Logged INFO RenderableErrorRaised) ?st) (Message 132) True =
      (Inr (), \<lparr>request = Message 0, event_callbacks = CbList [(Observer 0, True)],
           trace = [Logged INFO RenderableErrorRaised,
                    Called (Observer 0) (Event (Some (Message 132)) None True)]\<rparr>)"
    by code_simp
  from t e have "wrapped 160 ?ivk ?st (Raised ValueError) =
          (case add_response ?ivk ?st (Message 160) True of
             (Inl y, st') \<Rightarrow> (Inl y, st')
           | (Inr u, st') \<Rightarrow> (Inr (), emit (Logged ERROR (ExceptionWhileRendering ValueError)) st'))"
    by blast
  then have 1: "wrapped 160 ?ivk ?st (Raised ValueError) =
       (Inr (),
        \<lparr>request = Message 0, event_callbacks = CbList [(Observer 0, True)],
           trace = [Called (Observer 0) (Event (Some (Message 160)) None True),
                    Logged ERROR (ExceptionWhileRendering ValueError)]\<rparr>)"
    unfolding a by (simp add: emit_def del: invoke.simps)
  from t have "wrapped 160 ?ivk ?st (RaisedRenderableError (ToMessageReturns (Some (Message 132)))) =
      add_response ?ivk (emit (Logged INFO RenderableErrorRaised) ?st) (Message 132) True"
    by blast
  then have 2: "wrapped 160 ?ivk ?st (RaisedRenderableError (ToMessageReturns (Some (Message 132)))) =
       (Inr (),
        \<lparr>request = Message 0, event_callbacks = CbList [(Observer 0, True)],
           trace = [Logged INFO RenderableErrorRaised,
                    Called (Observer 0) (Event (Some (Message 132)) None True)]\<rparr>)"
    unfolding b .
  from t have 3: "wrapped 160 ?ivk ?st (Raised CancelledError) = (Inr (), ?st)"
    by blast
  from t p q o have "\<exists>s st'. wrapped 160 ?ivk ?st ?out = (Inr (), st')
           \<and> set s \<subseteq> set ?xs
           \<and> calls (trace st') = calls (trace ?st) @
                (case spec_binder_push 160 ?out of
                   None \<Rightarrow> []
                 | Some ev \<Rightarrow>
                     map (\<lambda>(cb, i). (cb, ev)) ?xs
                     @ (if list_ex snd s then [] else map (\<lambda>(cb, i). (cb, tombstone)) s))
           \<and> (\<forall>y. ?out = Raised y \<and> y \<noteq> CancelledError \<longrightarrow>
                 last (trace st') = Logged ERROR (ExceptionWhileRendering y))"
    by blast
  then obtain s st' where w: "wrapped 160 ?ivk ?st ?out = (Inr (), st')"
    and c: "calls (trace st') = calls (trace ?st) @
                (case spec_binder_push 160 ?out of
                   None \<Rightarrow> []
                 | Some ev \<Rightarrow>
                     map (\<lambda>(cb, i). (cb, ev)) ?xs
                     @ (if list_ex snd s then [] else map (\<lambda>(cb, i). (cb, tombstone)) s))"
    by blast
  from c have "calls (trace st') = (Observer 0, Event (Some (Message 160)) None True)
       # (if list_ex snd s then [] else map (\<lambda>(cb, i). (cb, tombstone)) s)"
    by simp
  with w have 4: "\<exists>s st'. wrapped 160 ?ivk ?st ?out = (Inr (), st')
        \<and> calls (trace st') =
            (Observer 0, Event (Some (Message 160)) None True)
            # (if list_ex snd s then [] else map (\<lambda>(cb, i). (cb, tombstone)) s)"
    by blast
  from e 1 2 3 p q 4 show ?thesis by blast
qed

section \<open>Registering after the end\<close>

text \<open>
  C9. Once the observer field is \<^verbatim>\<open>False\<close>, \<^verbatim>\<open>on_event\<close> raises \<^verbatim>\<open>AttributeError\<close>
  (\<^verbatim>\<open>False\<close> has no \<^verbatim>\<open>append\<close>); the observer is not registered and nothing else
  changes.
\<close>

theorem on_event_after_end_raises:
  assumes "event_callbacks st = CbFalse"
  shows "on_event st callback is_interest = (Inl AttributeError, st)"
  using assms by (simp add: on_event_def)

theorem on_event_after_end_raises_witness:
  "event_callbacks \<lparr>request = Message 0, event_callbacks = CbFalse, trace = []\<rparr> = CbFalse
   \<and> on_event \<lparr>request = Message 0, event_callbacks = CbFalse, trace = []\<rparr> (Observer 3) True =
      (Inl AttributeError, \<lparr>request = Message 0, event_callbacks = CbFalse, trace = []\<rparr>)"
  using on_event_after_end_raises
    [of "\<lparr>request = Message 0, event_callbacks = CbFalse, trace = []\<rparr>" "Observer 3" True]
  by simp

section \<open>An exception of a callback during a pass\<close>

text \<open>
  C10. Let the plumbing request hold a list of observers, let the callbacks before
  \<open>cb\<close> return during the pass of a push, and let \<open>cb\<close> raise \<open>x\<close>. Then
  the push (\<^verbatim>\<open>add_response\<close> or \<^verbatim>\<open>add_exception\<close>) raises \<open>x\<close> to its caller, the
  callbacks after \<open>cb\<close> are not called, and the observer field is left at \<^verbatim>\<open>None\<close>.
  From then on every push, registration, interest-end registration and
  unregistration raises and changes nothing, so the field stays \<^verbatim>\<open>None\<close> for ever.
\<close>

theorem callback_exception_wedges:
  assumes "event_callbacks st = CbList (pre @ (cb, i) # post)"
    and "surviving (invoke d B) e pre (st\<lparr>event_callbacks := CbNone\<rparr>) = (Inr s, st2)"
    and "invoke d B st2 cb e = (Inl x, st3)"
  shows "priv_add_event (invoke d B) st e = (Inl x, st3)
       \<and> (\<forall>r final. e = Event (Some r) None final \<longrightarrow>
             add_response (invoke d B) st r final = (Inl x, st3))
       \<and> (\<forall>y. e = Event None (Some y) True \<longrightarrow>
             add_exception (invoke d B) st y = (Inl x, st3))
       \<and> event_callbacks st3 = CbNone
       \<and> (\<forall>c. \<exists>y. perform ivk st3 c = (Inl y, st3))
       \<and> (\<forall>cs. run ivk st3 cs = st3)"
proof -
  have "sealed (st\<lparr>event_callbacks := CbNone\<rparr>)" by (simp add: sealed_def)
  from surviving_sealed [OF this assms(2)] have n2: "event_callbacks st2 = CbNone" by simp
  then have "sealed st2" by (simp add: sealed_def)
  from invoke_sealed [OF this assms(3)] n2 have n3: "event_callbacks st3 = CbNone" by simp
  have "surviving (invoke d B) e (pre @ (cb, i) # post) (st\<lparr>event_callbacks := CbNone\<rparr>) = (Inl x, st3)"
    using assms(2,3) by (simp add: surviving_append)
  then have p: "priv_add_event (invoke d B) st e = (Inl x, st3)"
    using assms(1) by (simp add: priv_add_event_def)
  have "\<forall>c. \<exists>y. perform ivk st3 c = (Inl y, st3)"
    using n3 by (simp add: perform_CbNone)
  moreover have "\<forall>cs. run ivk st3 cs = st3"
    using n3 by (simp add: run_CbNone)
  ultimately show ?thesis using p n3 by (auto simp: add_response_def add_exception_def)
qed

theorem callback_exception_wedges_witness:
  "add_response (invoke 1 (\<lambda>h n e. if n = 1 then Raise (OtherException 7) else Return True))
      \<lparr>request = Message 0,
         event_callbacks = CbList [(Observer 0, True), (Observer 1, True), (Observer 2, True)],
         trace = []\<rparr>
      (Message 69) False =
     (Inl (OtherException 7),
      \<lparr>request = Message 0, event_callbacks = CbNone,
         trace = [Called (Observer 0) (Event (Some (Message 69)) None False),
                  Called (Observer 1) (Event (Some (Message 69)) None False)]\<rparr>)
   \<and> (\<exists>y. perform (invoke 1 (\<lambda>h n e. if n = 1 then Raise (OtherException 7) else Return True))
        \<lparr>request = Message 0, event_callbacks = CbNone,
           trace = [Called (Observer 0) (Event (Some (Message 69)) None False),
                    Called (Observer 1) (Event (Some (Message 69)) None False)]\<rparr>
        (CallUnregister 1) =
       (Inl y,
        \<lparr>request = Message 0, event_callbacks = CbNone,
           trace = [Called (Observer 0) (Event (Some (Message 69)) None False),
                    Called (Observer 1) (Event (Some (Message 69)) None False)]\<rparr>))"
proof -
  let ?B = "\<lambda>(h::effect list) (n::nat) (e::event). if n = 1 then Raise (OtherException 7) else Return True"
  let ?e = "Event (Some (Message 69)) None False"
  let ?st = "\<lparr>request = Message 0,
      event_callbacks = CbList ([(Observer 0, True)] @ (Observer 1, True) # [(Observer 2, True)]),
      trace = []\<rparr>"
  let ?st2 = "\<lparr>request = Message 0, event_callbacks = CbNone, trace = [Called (Observer 0) ?e]\<rparr>"
  let ?st3 = "\<lparr>request = Message 0, event_callbacks = CbNone,
      trace = [Called (Observer 0) ?e, Called (Observer 1) ?e]\<rparr>"
  have h1: "event_callbacks ?st = CbList ([(Observer 0, True)] @ (Observer 1, True) # [(Observer 2, True)])"
    by simp
  have h2: "surviving (invoke 1 ?B) ?e [(Observer 0, True)] (?st\<lparr>event_callbacks := CbNone\<rparr>)
      = (Inr [(Observer 0, True)], ?st2)"
    by (simp add: emit_def)
  have h3: "invoke 1 ?B ?st2 (Observer 1) ?e = (Inl (OtherException 7), ?st3)"
    by (simp add: emit_def)
  from callback_exception_wedges [OF h1 h2 h3, of "invoke 1 ?B"] show ?thesis
    by (auto simp del: invoke.simps)
qed

end
